theory Spec2Isabelle
  imports Main "HOL-Library.Sublist"
begin

section \<open>Strings and characters\<close>

text \<open>
  Python's \<open>str\<close> is a sequence of Unicode code points. The model takes \<open>string\<close>
  (a \<open>char list\<close>) and reads each \<open>char\<close> as the code point of the same number, so the
  strings of the model are the Python strings over U+0000 .. U+00FF (ASCII and the Latin-1
  supplement); \<open>length\<close> counts code points, as \<open>len\<close> does. The character classes below
  are those of Python 3 on that range: \<open>str.isspace\<close> and the pattern \<open>\s\<close>, the pattern
  \<open>\w\<close> (alphanumeric in the Unicode database, or the underscore) and \<open>str.lower\<close>.
\<close>

definition code :: "char \<Rightarrow> nat" where
  "code c = of_char c"

definition is_ascii :: "char \<Rightarrow> bool" where
  "is_ascii c = (code c < 128)"

definition is_space :: "char \<Rightarrow> bool" where
  "is_space c = (code c \<in> {9, 10, 11, 12, 13, 28, 29, 30, 31, 32, 133, 160})"

definition is_alnum :: "char \<Rightarrow> bool" where
  "is_alnum c = (let n = code c in
     (48 \<le> n \<and> n \<le> 57) \<or> (65 \<le> n \<and> n \<le> 90) \<or> (97 \<le> n \<and> n \<le> 122) \<or>
     n \<in> {170, 178, 179, 181, 185, 186, 188, 189, 190} \<or>
     (192 \<le> n \<and> n \<le> 214) \<or> (216 \<le> n \<and> n \<le> 246) \<or> (248 \<le> n \<and> n \<le> 255))"

definition is_word :: "char \<Rightarrow> bool" where
  "is_word c = (is_alnum c \<or> c = CHR ''_'')"

definition lower_char :: "char \<Rightarrow> char" where
  "lower_char c = (let n = code c in
     if (65 \<le> n \<and> n \<le> 90) \<or> (192 \<le> n \<and> n \<le> 214) \<or> (216 \<le> n \<and> n \<le> 222)
     then char_of (n + 32) else c)"

definition lower :: "string \<Rightarrow> string" where
  "lower s = map lower_char s"

text \<open>\<open>s.strip()\<close>: whitespace removed at both ends.\<close>

definition strip :: "string \<Rightarrow> string" where
  "strip s = rev (dropWhile is_space (rev (dropWhile is_space s)))"

text \<open>\<open>s.strip('-')\<close>: hyphens removed at both ends.\<close>

definition strip_hyphen :: "string \<Rightarrow> string" where
  "strip_hyphen s =
     rev (dropWhile (\<lambda>c. c = CHR ''-'') (rev (dropWhile (\<lambda>c. c = CHR ''-'') s)))"

text \<open>
  \<open>s[:n]\<close>: the first \<open>n\<close> characters, and for a negative \<open>n\<close> all but the last \<open>-n\<close>.
\<close>

definition slice_to :: "string \<Rightarrow> int \<Rightarrow> string" where
  "slice_to s n = (if 0 \<le> n then take (nat n) s else take (length s - nat (- n)) s)"

text \<open>
  \<open>s.rsplit(' ', 1)\<close>: split once at the last space character; a string without a space
  is returned whole, as a list of one element.
\<close>

definition rsplit_space :: "string \<Rightarrow> string list" where
  "rsplit_space s =
     (if CHR '' '' \<in> set s
      then [rev (tl (dropWhile (\<lambda>c. c \<noteq> CHR '' '') (rev s))),
            rev (takeWhile (\<lambda>c. c \<noteq> CHR '' '') (rev s))]
      else [s])"

text \<open>\<open>s.split()\<close>: the maximal runs of characters that are not whitespace.\<close>

function split_ws :: "string \<Rightarrow> string list" where
  "split_ws s =
     (case dropWhile is_space s of
        [] \<Rightarrow> []
      | c # cs \<Rightarrow> takeWhile (\<lambda>x. \<not> is_space x) (c # cs)
                 # split_ws (dropWhile (\<lambda>x. \<not> is_space x) (c # cs)))"
  by pat_completeness auto
termination
proof (relation "measure length")
  show "wf (measure length)" by simp
next
  fix s :: string and c cs
  assume d: "dropWhile is_space s = c # cs"
  have "\<not> is_space c" using d by (metis hd_dropWhile list.sel(1) list.simps(3))
  then have "length (dropWhile (\<lambda>x. \<not> is_space x) (c # cs)) \<le> length cs"
    by (simp add: length_dropWhile_le)
  also have "length cs < length (dropWhile is_space s)" using d by simp
  also have "\<dots> \<le> length s" by (rule length_dropWhile_le)
  finally show "(dropWhile (\<lambda>x. \<not> is_space x) (c # cs), s) \<in> measure length" by simp
qed

declare split_ws.simps [simp del]

text \<open>\<open>str(n)\<close> for an integer: decimal digits, with a minus sign when negative.\<close>

definition digit_char :: "nat \<Rightarrow> char" where
  "digit_char d = char_of (48 + d)"

fun str_nat :: "nat \<Rightarrow> string" where
  "str_nat n = (if n < 10 then [digit_char n] else str_nat (n div 10) @ [digit_char (n mod 10)])"

declare str_nat.simps [simp del]

definition str_int :: "int \<Rightarrow> string" where
  "str_int i = (if i < 0 then CHR ''-'' # str_nat (nat (- i)) else str_nat (nat i))"

datatype py_error = IndexError | TypeError | IntegrityError | OperationalError

section \<open>Excerpt generator\<close>

text \<open>
  \<open>BlogPost.generate_excerpt(self, length=150)\<close>:
  \<^verbatim>\<open>
    if len(self.content) <= length:
        return self.content
    return self.content[:length].rsplit(' ', 1)[0] + '...'
  \<close>
\<close>

definition generate_excerpt :: "string \<Rightarrow> int \<Rightarrow> py_error + string" where
  "generate_excerpt body n =
     (if int (length body) \<le> n then Inr body
      else (case rsplit_space (slice_to body n) of
              [] \<Rightarrow> Inl IndexError
            | x # _ \<Rightarrow> Inr (x @ ''...'')))"

text \<open>
  A cut after the first \<open>k\<close> characters splits a word when the characters on both sides
  of the cut are not whitespace.
\<close>

definition cuts_word :: "string \<Rightarrow> nat \<Rightarrow> bool" where
  "cuts_word s k = (0 < k \<and> k < length s \<and> \<not> is_space (s ! (k - 1)) \<and> \<not> is_space (s ! k))"

section \<open>Read-time estimator\<close>

text \<open>
  \<open>BlogPost.calculate_read_time\<close>:
  \<^verbatim>\<open>
    word_count = len(self.content.split())
    minutes = max(1, word_count // 200)
    return f"{minutes} min read"
  \<close>
\<close>

definition word_count :: "string \<Rightarrow> int" where
  "word_count body = int (length (split_ws body))"

definition calculate_read_time :: "string \<Rightarrow> string" where
  "calculate_read_time body =
     (let minutes = max 1 (word_count body div 200) in str_int minutes @ '' min read'')"

section \<open>Slug generator\<close>

text \<open>\<open>re.sub(r'[^\w\s-]', '', s)\<close>: every character outside the class is deleted.\<close>

definition sub_strip :: "string \<Rightarrow> string" where
  "sub_strip s = filter (\<lambda>c. is_word c \<or> is_space c \<or> c = CHR ''-'') s"

text \<open>
  \<open>re.sub(r'[\s_-]+', '-', s)\<close>: every maximal run of whitespace, underscores and
  hyphens becomes one hyphen.
\<close>

definition is_sep :: "char \<Rightarrow> bool" where
  "is_sep c = (is_space c \<or> c = CHR ''_'' \<or> c = CHR ''-'')"

function sub_seps :: "string \<Rightarrow> string" where
  "sub_seps [] = []"
| "sub_seps (c # cs) =
     (if is_sep c then CHR ''-'' # sub_seps (dropWhile is_sep cs) else c # sub_seps cs)"
  by pat_completeness auto
termination
  by (relation "measure length") (auto simp: length_dropWhile_le less_Suc_eq_le)

text \<open>
  The first three lines of both \<open>generate_slug\<close> methods:
  \<^verbatim>\<open>
    slug = re.sub(r'[^\w\s-]', '', self.title.lower())
    slug = re.sub(r'[\s_-]+', '-', slug)
    base_slug = slug.strip('-')
  \<close>
\<close>

definition base_slug :: "string \<Rightarrow> string" where
  "base_slug title = strip_hyphen (sub_seps (sub_strip (lower title)))"

text \<open>The characters that the specification allows in a slug: \<open>[a-z0-9-]\<close>.\<close>

definition slug_char :: "char \<Rightarrow> bool" where
  "slug_char c = ((48 \<le> code c \<and> code c \<le> 57) \<or> (97 \<le> code c \<and> code c \<le> 122) \<or> c = CHR ''-'')"

text \<open>\<open>Category.generate_slug\<close> returns \<open>slug.strip('-')\<close> at once.\<close>

definition Category_generate_slug :: "string \<Rightarrow> string" where
  "Category_generate_slug name = strip_hyphen (sub_seps (sub_strip (lower name)))"

section \<open>Entities\<close>

text \<open>
  A column that holds no value is \<open>None\<close>. Timestamps are points on a discrete clock.
  A model object is built by the ORM's constructor from keyword arguments: an attribute
  that is not passed is \<open>None\<close> until the row is inserted, and only the insert fills in
  the column defaults.
\<close>

type_synonym datetime = nat

record blog_post =
  post_id :: "nat option"
  title :: "string option"
  content :: "string option"
  excerpt :: "string option"
  slug :: "string option"
  published :: "bool option"
  featured :: "bool option"
  read_time :: "string option"
  date_created :: "datetime option"
  date_published :: "datetime option"
  author_id :: "nat option"
  category_id :: "nat option"
  tags :: "string list"

record category =
  cat_id :: "nat option"
  cat_name :: "string option"
  cat_slug :: "string option"

record comment =
  comment_id :: "nat option"
  comment_content :: "string option"
  comment_author_id :: "nat option"
  comment_post_id :: "nat option"
  parent_id :: "nat option"

text \<open>Python's truth value of an attribute: \<open>None\<close>, \<open>''\<close> and \<open>False\<close> are false.\<close>

definition truthy_str :: "string option \<Rightarrow> bool" where
  "truthy_str v = (case v of None \<Rightarrow> False | Some s \<Rightarrow> s \<noteq> [])"

definition truthy_bool :: "bool option \<Rightarrow> bool" where
  "truthy_bool v = (case v of None \<Rightarrow> False | Some b \<Rightarrow> b)"

definition truthy_obj :: "'a option \<Rightarrow> bool" where
  "truthy_obj v = (case v of None \<Rightarrow> False | Some _ \<Rightarrow> True)"

text \<open>
  The uniqueness loop of \<open>BlogPost.generate_slug\<close>, against the stored posts:
  \<^verbatim>\<open>
    counter = 1
    unique_slug = base_slug
    while BlogPost.query.filter_by(slug=unique_slug).first():
        unique_slug = f"{base_slug}-{counter}"
        counter += 1
    return unique_slug
  \<close>
\<close>

text \<open>The slugs held by the stored posts.\<close>

definition slug_set :: "blog_post list \<Rightarrow> string set" where
  "slug_set ps = {s. Some s \<in> slug ` set ps}"

definition query_by_slug :: "blog_post list \<Rightarrow> string \<Rightarrow> blog_post option" where
  "query_by_slug ps s = find (\<lambda>p. slug p = Some s) ps"

function slug_loop :: "blog_post list \<Rightarrow> string \<Rightarrow> int \<Rightarrow> string \<Rightarrow> string" where
  "slug_loop ps base counter unique_slug =
     (if truthy_obj (query_by_slug ps unique_slug)
      then slug_loop ps base (counter + 1) (base @ ''-'' @ str_int counter)
      else unique_slug)"
  by pat_completeness auto

definition BlogPost_generate_slug :: "blog_post list \<Rightarrow> string \<Rightarrow> string" where
  "BlogPost_generate_slug ps t = slug_loop ps (base_slug t) 1 (base_slug t)"

text \<open>
  \<open>BlogPost.__init__\<close>, on the attributes set from the keyword arguments, against the
  stored posts and at time \<open>now\<close>:
  \<^verbatim>\<open>
    if self.title and not self.slug:
        self.slug = self.generate_slug()
    if not self.excerpt and self.content:
        self.excerpt = self.generate_excerpt()
    if not self.read_time and self.content:
        self.read_time = self.calculate_read_time()
    if self.published and not self.date_published:
        self.date_published = datetime.utcnow()
  \<close>
\<close>

definition init_slug :: "blog_post list \<Rightarrow> blog_post \<Rightarrow> blog_post" where
  "init_slug ps p =
     (case title p of
        Some t \<Rightarrow> if t \<noteq> [] \<and> \<not> truthy_str (slug p)
                  then p\<lparr>slug := Some (BlogPost_generate_slug ps t)\<rparr> else p
      | None \<Rightarrow> p)"

definition init_excerpt :: "blog_post \<Rightarrow> py_error + blog_post" where
  "init_excerpt p =
     (case content p of
        Some c \<Rightarrow> if \<not> truthy_str (excerpt p) \<and> c \<noteq> []
                  then (case generate_excerpt c 150 of
                          Inl e \<Rightarrow> Inl e
                        | Inr x \<Rightarrow> Inr (p\<lparr>excerpt := Some x\<rparr>))
                  else Inr p
      | None \<Rightarrow> Inr p)"

definition init_read_time :: "blog_post \<Rightarrow> blog_post" where
  "init_read_time p =
     (case content p of
        Some c \<Rightarrow> if \<not> truthy_str (read_time p) \<and> c \<noteq> []
                  then p\<lparr>read_time := Some (calculate_read_time c)\<rparr> else p
      | None \<Rightarrow> p)"

definition init_date_published :: "datetime \<Rightarrow> blog_post \<Rightarrow> blog_post" where
  "init_date_published now p =
     (if truthy_bool (published p) \<and> \<not> truthy_obj (date_published p)
      then p\<lparr>date_published := Some now\<rparr> else p)"

definition BlogPost_init :: "blog_post \<Rightarrow> blog_post list \<Rightarrow> datetime \<Rightarrow> py_error + blog_post" where
  "BlogPost_init kwargs ps now =
     (case init_excerpt (init_slug ps kwargs) of
        Inl e \<Rightarrow> Inl e
      | Inr p \<Rightarrow> Inr (init_date_published now (init_read_time p)))"

text \<open>
  \<open>Category.__init__\<close>:
  \<^verbatim>\<open>
    if self.name and not self.slug:
        self.slug = self.generate_slug()
  \<close>
\<close>

definition Category_init :: "category \<Rightarrow> category" where
  "Category_init kwargs =
     (case cat_name kwargs of
        Some n \<Rightarrow> if n \<noteq> [] \<and> \<not> truthy_str (cat_slug kwargs)
                  then kwargs\<lparr>cat_slug := Some (Category_generate_slug n)\<rparr> else kwargs
      | None \<Rightarrow> kwargs)"

section \<open>Storage\<close>

text \<open>
  The tables that the modelled handlers read and write. Rows are kept in insertion order;
  no handler deletes a row, so the next key is one more than the number of rows.
\<close>

record db =
  posts :: "blog_post list"
  comments :: "comment list"
  categories :: "category list"
  tag_names :: "string list"

text \<open>
  \<open>db.session.add(post); db.session.commit()\<close>: the insert assigns the key and fills the
  column defaults (\<open>published\<close> \<open>True\<close>, \<open>featured\<close> \<open>False\<close>, \<open>read_time\<close>
  \<open>'5 min read'\<close>, \<open>date_created\<close> the current time) into the columns that are still
  \<open>None\<close>. The commit fails with an integrity error, and stores nothing, when one of
  the columns declared \<open>nullable=False\<close> without a default (\<open>title\<close>, \<open>content\<close>,
  \<open>author_id\<close>, \<open>category_id\<close>) is \<open>None\<close>, and when the slug is one that a stored
  post has (the column is \<open>unique\<close>).
\<close>

definition not_null :: "blog_post \<Rightarrow> bool" where
  "not_null p =
     (title p \<noteq> None \<and> content p \<noteq> None \<and> author_id p \<noteq> None \<and> category_id p \<noteq> None)"

definition with_defaults :: "nat \<Rightarrow> datetime \<Rightarrow> blog_post \<Rightarrow> blog_post" where
  "with_defaults k now p =
     p\<lparr>post_id := Some k,
       published := (case published p of None \<Rightarrow> Some True | Some b \<Rightarrow> Some b),
       featured := (case featured p of None \<Rightarrow> Some False | Some b \<Rightarrow> Some b),
       read_time := (case read_time p of None \<Rightarrow> Some ''5 min read'' | Some r \<Rightarrow> Some r),
       date_created := (case date_created p of None \<Rightarrow> Some now | Some d \<Rightarrow> Some d)\<rparr>"

definition insert_post :: "blog_post \<Rightarrow> datetime \<Rightarrow> db \<Rightarrow> py_error + db" where
  "insert_post p now d =
     (if \<not> not_null p then Inl IntegrityError
      else (case slug p of
              Some s \<Rightarrow>
                if truthy_obj (query_by_slug (posts d) s) then Inl IntegrityError
                else Inr (d\<lparr>posts := posts d @ [with_defaults (Suc (length (posts d))) now p]\<rparr>)
            | None \<Rightarrow>
                Inr (d\<lparr>posts := posts d @ [with_defaults (Suc (length (posts d))) now p]\<rparr>)))"

text \<open>
  \<open>db.session.add(comment); db.session.commit()\<close> for a comment that has a content, an
  author and a post, as the comments built by the handler always have.
\<close>

definition insert_comment :: "comment \<Rightarrow> db \<Rightarrow> db" where
  "insert_comment c d =
     d\<lparr>comments := comments d @ [c\<lparr>comment_id := Some (Suc (length (comments d)))\<rparr>]\<rparr>"

section \<open>Creating a post\<close>

text \<open>
  The fields of \<open>BlogPostForm\<close> that \<open>create_post\<close> reads. The form's \<open>published\<close>
  field is not read by the handler.
\<close>

record post_form =
  form_title :: string
  form_content :: string
  form_excerpt :: string
  form_category :: nat
  form_tags :: string
  form_featured :: bool

text \<open>
  The validators of the form: \<open>DataRequired\<close> wants text that is not blank, \<open>Optional\<close>
  accepts a blank field, \<open>Length\<close> bounds the number of characters, and the category
  must be one of the stored categories.
\<close>

definition validate_on_submit :: "post_form \<Rightarrow> db \<Rightarrow> bool" where
  "validate_on_submit f d =
     (strip (form_title f) \<noteq> [] \<and> 5 \<le> length (form_title f) \<and> length (form_title f) \<le> 200 \<and>
      (strip (form_excerpt f) = [] \<or> length (form_excerpt f) \<le> 500) \<and>
      strip (form_content f) \<noteq> [] \<and> 50 \<le> length (form_content f) \<and>
      form_category f \<noteq> 0 \<and> Some (form_category f) \<in> set (map cat_id (categories d)) \<and>
      (strip (form_tags f) = [] \<or> length (form_tags f) \<le> 200))"

text \<open>\<open>s.split(',')\<close>.\<close>

fun split_comma :: "string \<Rightarrow> string list" where
  "split_comma [] = [[]]"
| "split_comma (c # cs) =
     (if c = CHR '','' then [] # split_comma cs
      else (case split_comma cs of [] \<Rightarrow> [[c]] | w # ws \<Rightarrow> (c # w) # ws))"

text \<open>
  \<open>create_post\<close>, for the signed-in user \<open>uid\<close> at time \<open>now\<close>:
  \<^verbatim>\<open>
    if form.validate_on_submit():
        post = BlogPost(title=form.title.data, content=form.content.data,
                        excerpt=form.excerpt.data, author_id=current_user.id,
                        category_id=form.category.data, featured=form.featured.data)
        if form.tags.data:
            tag_names = [tag.strip() for tag in form.tags.data.split(',')]
            for tag_name in tag_names:
                tag = Tag.query.filter_by(name=tag_name).first()
                if not tag:
                    tag = Tag(name=tag_name)
                    db.session.add(tag)
                post.tags.append(tag)
        db.session.add(post)
        db.session.commit()
  \<close>
  A form that does not validate is shown again and nothing is stored. A tag named twice
  in the form is appended to \<open>post.tags\<close> twice: the two equal rows break the primary
  key of \<open>post_tags\<close>, the commit fails and nothing is stored.
\<close>

definition create_post_kwargs :: "post_form \<Rightarrow> nat \<Rightarrow> blog_post" where
  "create_post_kwargs f uid =
     \<lparr>post_id = None, title = Some (form_title f), content = Some (form_content f),
      excerpt = Some (form_excerpt f), slug = None, published = None,
      featured = Some (form_featured f), read_time = None, date_created = None,
      date_published = None, author_id = Some uid, category_id = Some (form_category f),
      tags = []\<rparr>"

definition add_tags :: "string list \<Rightarrow> string list \<Rightarrow> string list" where
  "add_tags names stored = fold (\<lambda>n acc. if n \<in> set acc then acc else acc @ [n]) names stored"

text \<open>The tag names read from the form; none when the field is empty.\<close>

definition form_tag_names :: "post_form \<Rightarrow> string list" where
  "form_tag_names f = (if form_tags f \<noteq> [] then map strip (split_comma (form_tags f)) else [])"

definition create_post :: "post_form \<Rightarrow> nat \<Rightarrow> datetime \<Rightarrow> db \<Rightarrow> py_error + db" where
  "create_post f uid now d =
     (if validate_on_submit f d
      then (case BlogPost_init (create_post_kwargs f uid) (posts d) now of
              Inl e \<Rightarrow> Inl e
            | Inr post \<Rightarrow>
                (let names = form_tag_names f
                 in if \<not> distinct names then Inl IntegrityError
                    else insert_post (post\<lparr>tags := names\<rparr>) now
                           (d\<lparr>tag_names := add_tags names (tag_names d)\<rparr>)))
      else Inr d)"

text \<open>
  The loop of \<open>seed_posts.py\<close> builds each post from a title, an excerpt, the content,
  the author, the category, a read-time label and the featured flag, appends the tags
  named for it and stores it.
\<close>

definition seed_post_kwargs ::
  "string \<Rightarrow> string \<Rightarrow> string \<Rightarrow> nat \<Rightarrow> nat \<Rightarrow> string \<Rightarrow> bool \<Rightarrow> blog_post" where
  "seed_post_kwargs t e c uid cid r f =
     \<lparr>post_id = None, title = Some t, content = Some c, excerpt = Some e, slug = None,
      published = None, featured = Some f, read_time = Some r, date_created = None,
      date_published = None, author_id = Some uid, category_id = Some cid, tags = []\<rparr>"

definition seed_post :: "blog_post \<Rightarrow> string list \<Rightarrow> datetime \<Rightarrow> db \<Rightarrow> py_error + db" where
  "seed_post kwargs names now d =
     (case BlogPost_init kwargs (posts d) now of
        Inl e \<Rightarrow> Inl e
      | Inr post \<Rightarrow>
          if \<not> distinct names then Inl IntegrityError
          else insert_post (post\<lparr>tags := names\<rparr>) now d)"

section \<open>Comments\<close>

datatype response = Ok | Bad_request | Not_found

text \<open>
  \<open>api_add_comment\<close>, for the signed-in user \<open>uid\<close>; \<open>pid\<close> and \<open>txt\<close> are the values
  of the keys \<open>post_id\<close> and \<open>content\<close> of the request, \<open>None\<close> for a missing key:
  \<^verbatim>\<open>
    post_id = data.get('post_id')
    content = data.get('content', '').strip()
    if not content:
        return jsonify({'error': 'Comment content is required'}), 400
    post = BlogPost.query.get_or_404(post_id)
    comment = Comment(content=content, author_id=current_user.id, post_id=post_id)
    db.session.add(comment)
    db.session.commit()
  \<close>
\<close>

definition get_post :: "db \<Rightarrow> nat option \<Rightarrow> blog_post option" where
  "get_post d pid = (case pid of None \<Rightarrow> None | Some k \<Rightarrow> find (\<lambda>p. post_id p = Some k) (posts d))"

definition api_add_comment :: "nat option \<Rightarrow> string option \<Rightarrow> nat \<Rightarrow> db \<Rightarrow> response \<times> db" where
  "api_add_comment pid txt uid d =
     (let c = strip (case txt of None \<Rightarrow> [] | Some x \<Rightarrow> x) in
      if c = [] then (Bad_request, d)
      else (case get_post d pid of
              None \<Rightarrow> (Not_found, d)
            | Some _ \<Rightarrow>
                (Ok, insert_comment
                       \<lparr>comment_id = None, comment_content = Some c,
                        comment_author_id = Some uid, comment_post_id = pid,
                        parent_id = None\<rparr> d)))"

text \<open>
  The invariant of the specification: a comment's parent, when it has one, is a stored
  comment of the same post.
\<close>

definition parent_same_post :: "db \<Rightarrow> bool" where
  "parent_same_post d =
     (\<forall>c\<in>set (comments d). case parent_id c of
          None \<Rightarrow> True
        | Some k \<Rightarrow> (\<exists>q\<in>set (comments d). comment_id q = Some k \<and>
                       comment_post_id q = comment_post_id c))"

section \<open>The handlers as transitions\<close>

text \<open>
  The handlers and scripts that write posts or comments. The other handlers (the page
  views, login, registration, the JSON listings and the search) leave both tables as
  they are.
\<close>

inductive app_step :: "db \<Rightarrow> db \<Rightarrow> bool" where
  step_create_post: "create_post f uid now d = Inr d' \<Longrightarrow> app_step d d'"
| step_seed_post:
    "seed_post (seed_post_kwargs t e c uid cid r fl) names now d = Inr d' \<Longrightarrow> app_step d d'"
| step_add_comment: "api_add_comment pid txt uid d = (r, d') \<Longrightarrow> app_step d d'"

text \<open>
  The tables after \<open>create_sample_data_if_needed\<close> on an empty database: five
  categories, eleven tags, no post and no comment.
\<close>

definition sample_category :: "nat \<Rightarrow> string \<Rightarrow> category" where
  "sample_category k n = (Category_init \<lparr>cat_id = None, cat_name = Some n, cat_slug = None\<rparr>)\<lparr>cat_id := Some k\<rparr>"

definition initial_db :: db where
  "initial_db =
     \<lparr>posts = [], comments = [],
      categories = [sample_category 1 ''Tutorial'', sample_category 2 ''Framework'',
                    sample_category 3 ''JavaScript'', sample_category 4 ''CSS'',
                    sample_category 5 ''Accessibility''],
      tag_names = [''HTML'', ''CSS'', ''JavaScript'', ''Bootstrap'', ''ES6'', ''Responsive'',
                   ''Features'', ''Grid'', ''Flexbox'', ''A11y'', ''ARIA'']\<rparr>"

inductive reachable :: "db \<Rightarrow> bool" where
  reachable_initial: "reachable initial_db"
| reachable_step: "reachable d \<Longrightarrow> app_step d d' \<Longrightarrow> reachable d'"

section \<open>Searching posts\<close>

text \<open>
  \<open>column.contains(term)\<close> is rendered by the ORM as
  \<open>column LIKE '%' || term || '%'\<close>, the term unescaped. Every configuration of the
  application uses an SQLite database unless the environment names another one. The
  \<open>LIKE\<close> of SQLite reads \<open>%\<close> in the pattern as any
  run of characters and \<open>_\<close> as any one character, and compares the other characters
  without regard to the case of the ASCII letters only. It reads the pattern and the
  text as C strings, up to their first NUL character, and refuses a pattern of more
  than 50000 bytes in UTF-8 (a character above U+007F takes two bytes on the range
  modelled).
\<close>

definition ascii_fold :: "char \<Rightarrow> char" where
  "ascii_fold c = (if 65 \<le> code c \<and> code c \<le> 90 then char_of (code c + 32) else c)"

fun like_match :: "string \<Rightarrow> string \<Rightarrow> bool" where
  "like_match [] s = (s = [])"
| "like_match (p # ps) s =
     (if p = CHR ''%''
      then like_match ps s \<or> (case s of [] \<Rightarrow> False | _ # t \<Rightarrow> like_match (p # ps) t)
      else (case s of
              [] \<Rightarrow> False
            | c # t \<Rightarrow> (p = CHR ''_'' \<or> ascii_fold p = ascii_fold c) \<and> like_match ps t))"

definition c_str :: "string \<Rightarrow> string" where
  "c_str s = takeWhile (\<lambda>c. c \<noteq> CHR 0x00) s"

definition utf8_length :: "string \<Rightarrow> nat" where
  "utf8_length s = sum_list (map (\<lambda>c. if code c < 128 then 1 else 2) s)"

definition like_pattern :: "string \<Rightarrow> string" where
  "like_pattern term = ''%'' @ term @ ''%''"

definition too_complex :: "string \<Rightarrow> bool" where
  "too_complex pattern = (50000 < utf8_length pattern)"

text \<open>A \<open>NULL\<close> column makes the comparison \<open>NULL\<close>; \<open>OR\<close> is three-valued.\<close>

definition contains :: "string option \<Rightarrow> string \<Rightarrow> bool option" where
  "contains col term = map_option (\<lambda>s. like_match (c_str (like_pattern term)) (c_str s)) col"

definition sql_or :: "bool option \<Rightarrow> bool option \<Rightarrow> bool option" where
  "sql_or a b =
     (if a = Some True \<or> b = Some True then Some True
      else if a = None \<or> b = None then None
      else Some False)"

text \<open>
  The filter of both search handlers, \<open>api_get_posts\<close> and \<open>api_search\<close>; a row is
  selected when the condition is true:
  \<^verbatim>\<open>
    BlogPost.title.contains(search_term) |
    BlogPost.content.contains(search_term) |
    BlogPost.excerpt.contains(search_term)
  \<close>
\<close>

definition search_filter :: "string \<Rightarrow> blog_post \<Rightarrow> bool" where
  "search_filter term p =
     (sql_or (sql_or (contains (title p) term) (contains (content p) term))
             (contains (excerpt p) term) = Some True)"

text \<open>
  \<open>BlogPost.query.filter(...)\<close> run over the stored posts. The pattern is examined when
  the condition is evaluated on a row, so the query fails on a pattern that is too long
  as soon as the table has a row.
\<close>

definition search_posts :: "string \<Rightarrow> blog_post list \<Rightarrow> py_error + blog_post list" where
  "search_posts term ps =
     (if ps \<noteq> [] \<and> too_complex (like_pattern term) then Inl OperationalError
      else Inr (filter (search_filter term) ps))"

text \<open>
  \<open>api_search\<close>, on the value of the key \<open>search\<close> of the request (\<open>None\<close> for a missing
  key). The outcome records whether the handler sent a query to the storage.
  \<^verbatim>\<open>
    search_term = data.get('search', '').strip()
    if not search_term or len(search_term) < 3:
        return jsonify({'results': []})
    posts = BlogPost.query.filter(...).limit(10).all()
    results = []
    for post in posts:
        results.append({'id': post.id, 'title': post.title,
            'excerpt': post.excerpt[:100] + '...' if len(post.excerpt) > 100 else post.excerpt,
            ...})
    return jsonify({'results': results})
  \<close>
  Of each result the model keeps the key, the title and the shortened excerpt; a post
  without an excerpt makes \<open>len\<close> raise.
\<close>

record search_hit =
  hit_id :: "nat option"
  hit_title :: "string option"
  hit_excerpt :: string

record search_outcome =
  results :: "py_error + search_hit list"
  queried_storage :: bool

fun build_results :: "blog_post list \<Rightarrow> py_error + search_hit list" where
  "build_results [] = Inr []"
| "build_results (p # ps) =
     (case excerpt p of
        None \<Rightarrow> Inl TypeError
      | Some e \<Rightarrow>
          (case build_results ps of
             Inl err \<Rightarrow> Inl err
           | Inr hs \<Rightarrow>
               Inr (\<lparr>hit_id = post_id p, hit_title = title p,
                     hit_excerpt = (if length e > 100 then take 100 e @ ''...'' else e)\<rparr> # hs)))"

definition api_search :: "string option \<Rightarrow> db \<Rightarrow> search_outcome" where
  "api_search search d =
     (let search_term = strip (case search of None \<Rightarrow> [] | Some x \<Rightarrow> x) in
      if search_term = [] \<or> length search_term < 3
      then \<lparr>results = Inr [], queried_storage = False\<rparr>
      else \<lparr>results = (case search_posts search_term (posts d) of
                          Inl e \<Rightarrow> Inl e
                        | Inr rows \<Rightarrow> build_results (take 10 rows)),
            queried_storage = True\<rparr>)"

text \<open>
  The reading of the specification: the term occurs in the text, a run of consecutive
  characters, when the case of the letters is set aside, with \<open>f\<close> the case folding. A
  field without a value holds no term.
\<close>

definition substring_fold :: "(char \<Rightarrow> char) \<Rightarrow> string \<Rightarrow> string \<Rightarrow> bool" where
  "substring_fold f term s = sublist (map f term) (map f s)"

definition field_has :: "(char \<Rightarrow> char) \<Rightarrow> string \<Rightarrow> string option \<Rightarrow> bool" where
  "field_has f term col = (case col of None \<Rightarrow> False | Some s \<Rightarrow> substring_fold f term s)"

text \<open>The text of a column as \<open>LIKE\<close> reads it.\<close>

definition text_of :: "string option \<Rightarrow> string option" where
  "text_of col = map_option c_str col"

definition any_field_has :: "(char \<Rightarrow> char) \<Rightarrow> string \<Rightarrow> blog_post \<Rightarrow> bool" where
  "any_field_has f term p =
     (field_has f term (title p) \<or> field_has f term (content p) \<or> field_has f term (excerpt p))"

section \<open>Two posts in sequence\<close>

text \<open>
  A post is built from \<open>k1\<close> and stored, then a post is built from \<open>k2\<close> against the
  table that now holds the first; the result is the pair of their slugs.
\<close>

definition create_two ::
  "blog_post \<Rightarrow> blog_post \<Rightarrow> datetime \<Rightarrow> datetime \<Rightarrow> db \<Rightarrow> py_error + (string option \<times> string option)" where
  "create_two k1 k2 n1 n2 d =
     (case BlogPost_init k1 (posts d) n1 of
        Inl e \<Rightarrow> Inl e
      | Inr p1 \<Rightarrow>
          (case insert_post p1 n1 d of
             Inl e \<Rightarrow> Inl e
           | Inr d1 \<Rightarrow>
               (case BlogPost_init k2 (posts d1) n2 of
                  Inl e \<Rightarrow> Inl e
                | Inr p2 \<Rightarrow> Inr (slug p1, slug p2))))"

section \<open>Sample data\<close>

text \<open>A form that passes validation against the initial tables.\<close>

definition sample_form :: post_form where
  "sample_form = \<lparr>form_title = ''Hello World'',
     form_content = ''This is the body of a post that is long enough to pass validation.'',
     form_excerpt = [], form_category = 1, form_tags = ''HTML, CSS'', form_featured = False\<rparr>"

text \<open>Two stored posts and a comment on the first.\<close>

definition cross_post_db :: db where
  "cross_post_db =
     \<lparr>posts = [with_defaults 1 10 (seed_post_kwargs ''First post'' ''e'' ''c'' 1 1 ''1 min read'' False),
               with_defaults 2 20 (seed_post_kwargs ''Second post'' ''e'' ''c'' 1 1 ''1 min read'' False)],
      comments = [\<lparr>comment_id = Some 1, comment_content = Some ''On the first post'',
                   comment_author_id = Some 1, comment_post_id = Some 1, parent_id = None\<rparr>],
      categories = categories initial_db, tag_names = tag_names initial_db\<rparr>"

text \<open>A table that already holds a post with the slug \<open>hello-world\<close>.\<close>

definition taken_slug_db :: db where
  "taken_slug_db =
     initial_db\<lparr>posts :=
       [(with_defaults 1 5 (create_post_kwargs sample_form 1))\<lparr>slug := Some ''hello-world''\<rparr>]\<rparr>"

text \<open>Stored posts with the slugs \<open>''\<close> and \<open>-1\<close>.\<close>

definition empty_slug_posts :: "blog_post list" where
  "empty_slug_posts =
     [(with_defaults 1 5 (create_post_kwargs sample_form 1))\<lparr>slug := Some []\<rparr>,
      (with_defaults 2 6 (create_post_kwargs sample_form 1))\<lparr>slug := Some ''-1''\<rparr>]"

text \<open>The keyword arguments of a category built from a name alone.\<close>

definition category_kwargs :: "string \<Rightarrow> category" where
  "category_kwargs n = \<lparr>cat_id = None, cat_name = Some n, cat_slug = None\<rparr>"

text \<open>A stored post with the title \<open>abc\<close>.\<close>

definition abc_post :: blog_post where
  "abc_post = with_defaults 1 5 (seed_post_kwargs ''abc'' ''xyz'' ''uvw'' 1 1 ''1 min read'' False)"

chapter \<open>Properties\<close>

section \<open>Decimal rendering\<close>

lemma code_digit_char: "d < 10 \<Longrightarrow> code (digit_char d) = 48 + d"
  by (simp add: code_def digit_char_def)

lemma digit_char_inj:
  assumes "a < 10" and "b < 10" and "digit_char a = digit_char b"
  shows "a = b"
proof -
  have "48 + a = code (digit_char a)" using assms(1) by (simp add: code_digit_char)
  also have "\<dots> = code (digit_char b)" by (simp only: assms(3))
  also have "\<dots> = 48 + b" using assms(2) by (simp add: code_digit_char)
  finally show ?thesis by simp
qed

lemma str_nat_small: "n < 10 \<Longrightarrow> str_nat n = [digit_char n]"
  by (simp add: str_nat.simps)

lemma str_nat_big: "\<not> n < 10 \<Longrightarrow> str_nat n = str_nat (n div 10) @ [digit_char (n mod 10)]"
  by (subst str_nat.simps) simp

lemma str_nat_not_Nil: "str_nat n \<noteq> []"
  by (subst str_nat.simps) simp

lemma str_nat_digits: "c \<in> set (str_nat n) \<Longrightarrow> 48 \<le> code c \<and> code c \<le> 57"
proof (induction n arbitrary: c rule: str_nat.induct)
  case (1 n)
  show ?case
  proof (cases "n < 10")
    case True
    with "1.prems" have "c = digit_char n" by (simp add: str_nat_small)
    with True show ?thesis by (simp add: code_digit_char)
  next
    case False
    with "1.prems" have "c \<in> set (str_nat (n div 10)) \<or> c = digit_char (n mod 10)"
      by (auto simp: str_nat_big)
    then show ?thesis
    proof
      assume "c \<in> set (str_nat (n div 10))"
      with "1.IH"[OF False] show ?thesis by blast
    next
      assume "c = digit_char (n mod 10)"
      then show ?thesis by (simp add: code_digit_char)
    qed
  qed
qed

lemma str_nat_inj: "str_nat n = str_nat m \<Longrightarrow> n = m"
proof (induction n arbitrary: m rule: str_nat.induct)
  case (1 n)
  show ?case
  proof (cases "n < 10")
    case True
    show ?thesis
    proof (cases "m < 10")
      case True
      with \<open>n < 10\<close> "1.prems" show ?thesis by (simp add: str_nat_small digit_char_inj)
    next
      case False
      have "length (str_nat m) \<ge> 2" using str_nat_not_Nil[of "m div 10"]
        by (simp add: str_nat_big[OF False] Suc_le_eq)
      moreover have "length (str_nat n) = 1" using True by (simp add: str_nat_small)
      ultimately show ?thesis using "1.prems" by simp
    qed
  next
    case False
    show ?thesis
    proof (cases "m < 10")
      case True
      have "length (str_nat n) \<ge> 2" using str_nat_not_Nil[of "n div 10"]
        by (simp add: str_nat_big[OF False] Suc_le_eq)
      moreover have "length (str_nat m) = 1" using True by (simp add: str_nat_small)
      ultimately show ?thesis using "1.prems" by simp
    next
      case mbig: False
      from "1.prems" have "str_nat (n div 10) @ [digit_char (n mod 10)]
          = str_nat (m div 10) @ [digit_char (m mod 10)]"
        by (simp add: str_nat_big[OF False] str_nat_big[OF mbig])
      then have a: "str_nat (n div 10) = str_nat (m div 10)"
        and b: "digit_char (n mod 10) = digit_char (m mod 10)" by simp_all
      from "1.IH"[OF False a] have "n div 10 = m div 10" .
      moreover from b have "n mod 10 = m mod 10" by (rule digit_char_inj[rotated 2]) simp_all
      ultimately have "n div 10 * 10 + n mod 10 = m div 10 * 10 + m mod 10" by simp
      then show ?thesis by simp
    qed
  qed
qed

lemma str_int_inj: "str_int i = str_int j \<Longrightarrow> i = j"
proof -
  assume e: "str_int i = str_int j"
  have nodash: "\<And>n. hd (str_nat n) \<noteq> CHR ''-''"
  proof
    fix n assume h: "hd (str_nat n) = CHR ''-''"
    have "hd (str_nat n) \<in> set (str_nat n)" using str_nat_not_Nil by simp
    from str_nat_digits[OF this] h show False by (simp add: code_def)
  qed
  show ?thesis
  proof (cases "i < 0"; cases "j < 0")
    assume "i < 0" "j < 0"
    with e have "str_nat (nat (- i)) = str_nat (nat (- j))" by (simp add: str_int_def)
    then have "nat (- i) = nat (- j)" by (rule str_nat_inj)
    with \<open>i < 0\<close> \<open>j < 0\<close> show ?thesis by simp
  next
    assume "i < 0" "\<not> j < 0"
    with e have "CHR ''-'' # str_nat (nat (- i)) = str_nat (nat j)" by (simp add: str_int_def)
    then have "hd (str_nat (nat j)) = hd (CHR ''-'' # str_nat (nat (- i)))" by simp
    then have "hd (str_nat (nat j)) = CHR ''-''" by simp
    with nodash show ?thesis by blast
  next
    assume "\<not> i < 0" "j < 0"
    with e have "str_nat (nat i) = CHR ''-'' # str_nat (nat (- j))" by (simp add: str_int_def)
    then have "hd (str_nat (nat i)) = CHR ''-''" by simp
    with nodash show ?thesis by blast
  next
    assume "\<not> i < 0" "\<not> j < 0"
    with e have "str_nat (nat i) = str_nat (nat j)" by (simp add: str_int_def)
    then have "nat i = nat j" by (rule str_nat_inj)
    with \<open>\<not> i < 0\<close> \<open>\<not> j < 0\<close> show ?thesis by simp
  qed
qed

section \<open>The slug loop terminates\<close>

lemma query_by_slug_truthy: "truthy_obj (query_by_slug ps s) = (s \<in> slug_set ps)"
proof -
  have "truthy_obj (query_by_slug ps s) = (query_by_slug ps s \<noteq> None)"
    by (simp add: truthy_obj_def split: option.splits)
  also have "\<dots> = (\<exists>p. p \<in> set ps \<and> slug p = Some s)"
    by (simp add: query_by_slug_def find_None_iff)
  also have "\<dots> = (s \<in> slug_set ps)"
    by (force simp: slug_set_def image_iff)
  finally show ?thesis .
qed

lemma finite_slug_set: "finite (slug_set ps)"
proof -
  have "slug_set ps \<subseteq> the ` (slug ` set ps)"
  proof
    fix x assume "x \<in> slug_set ps"
    then obtain p where "p \<in> set ps" "slug p = Some x" by (auto simp: slug_set_def)
    then have "the (slug p) = x" "slug p \<in> slug ` set ps" by (simp, blast)
    then show "x \<in> the ` (slug ` set ps)" by blast
  qed
  then show ?thesis by (rule finite_subset) simp
qed

lemma finite_taken: "finite {k::int. c \<le> k \<and> base @ ''-'' @ str_int k \<in> slug_set ps}"
proof -
  have "inj (\<lambda>k. base @ ''-'' @ str_int k)" by (auto simp: inj_def dest: str_int_inj)
  then have "finite ((\<lambda>k. base @ ''-'' @ str_int k) -` slug_set ps)"
    by (rule finite_vimageI[OF finite_slug_set])
  then show ?thesis by (rule rev_finite_subset) auto
qed

termination slug_loop
proof (relation "measure (\<lambda>(ps, base, counter, u).
    card {k. counter \<le> k \<and> base @ ''-'' @ str_int k \<in> slug_set ps}
    + (if u \<in> slug_set ps then 1 else 0))")
  show "wf (measure (\<lambda>(ps, base, counter, u).
    card {k. counter \<le> k \<and> base @ ''-'' @ str_int k \<in> slug_set ps}
    + (if u \<in> slug_set ps then 1 else 0)))" by simp
next
  fix ps :: "blog_post list" and base :: string and counter :: int and unique_slug :: string
  assume "truthy_obj (query_by_slug ps unique_slug)"
  then have u: "unique_slug \<in> slug_set ps" by (simp add: query_by_slug_truthy)
  let ?T = "\<lambda>c. {k. c \<le> k \<and> base @ ''-'' @ str_int k \<in> slug_set ps}"
  have split: "?T counter = (if base @ ''-'' @ str_int counter \<in> slug_set ps
      then insert counter (?T (counter + 1)) else ?T (counter + 1))"
    by (auto simp: order_le_less) 
  have "card (?T (counter + 1)) + (if base @ ''-'' @ str_int counter \<in> slug_set ps then 1 else 0)
      = card (?T counter)"
    using finite_taken[of "counter + 1" base ps] by (subst split) simp
  with u show "((ps, base, counter + 1, base @ ''-'' @ str_int counter),
       (ps, base, counter, unique_slug)) \<in> measure (\<lambda>(ps, base, counter, u).
    card {k. counter \<le> k \<and> base @ ''-'' @ str_int k \<in> slug_set ps}
    + (if u \<in> slug_set ps then 1 else 0))" by simp
qed

section \<open>Excerpt generator\<close>

lemma rsplit_space_none: "CHR '' '' \<notin> set s \<Longrightarrow> rsplit_space s = [s]"
  by (simp add: rsplit_space_def)

lemma rsplit_space_some:
  assumes "CHR '' '' \<in> set s"
  shows "\<exists>p q. rsplit_space s = [p, q] \<and> s = p @ CHR '' '' # q \<and> CHR '' '' \<notin> set q"
proof -
  let ?P = "\<lambda>c. c \<noteq> CHR '' ''"
  let ?t = "takeWhile ?P (rev s)" and ?d = "dropWhile ?P (rev s)"
  have "CHR '' '' \<in> set (rev s)" using assms by simp
  then have dne: "?d \<noteq> []" by (auto simp: dropWhile_eq_Nil_conv)
  then have hd: "hd ?d = CHR '' ''" using hd_dropWhile[of ?P "rev s"] by simp
  have "rev s = ?t @ ?d" by simp
  also have "?d = CHR '' '' # tl ?d" using dne hd by (metis list.collapse)
  finally have "rev s = ?t @ CHR '' '' # tl ?d" .
  then have "rev (rev s) = rev (?t @ CHR '' '' # tl ?d)" by simp
  then have s: "s = rev (tl ?d) @ CHR '' '' # rev ?t" by simp
  have "CHR '' '' \<notin> set (rev ?t)" using set_takeWhileD[of "CHR '' ''" ?P "rev s"] by auto
  with s show ?thesis using assms by (auto simp: rsplit_space_def)
qed

text \<open>
  C1 (as the code has it). For a maximum length that is not negative: content no longer
  than the maximum is returned unchanged; longer content gives a prefix of its first
  \<open>n\<close> characters followed by \<open>...\<close>, of length at most \<open>n + 3\<close>. When a space character
  occurs among the first \<open>n\<close> characters the prefix ends just before the last of them, so
  the cut falls at a word boundary; when none occurs the whole \<open>n\<close>-character prefix is
  kept. Empty content gives the empty string and no error.
\<close>

theorem generate_excerpt_spec:
  assumes "0 \<le> n"
  shows "(int (length body) \<le> n \<longrightarrow> generate_excerpt body n = Inr body) \<and>
     (n < int (length body) \<longrightarrow>
        (\<exists>p. generate_excerpt body n = Inr (p @ ''...'') \<and>
             prefix p (take (nat n) body) \<and>
             length (p @ ''...'') \<le> nat n + 3 \<and>
             (CHR '' '' \<in> set (take (nat n) body) \<longrightarrow>
                (\<exists>q. take (nat n) body = p @ CHR '' '' # q \<and> CHR '' '' \<notin> set q) \<and>
                \<not> cuts_word body (length p)) \<and>
             (CHR '' '' \<notin> set (take (nat n) body) \<longrightarrow> p = take (nat n) body))) \<and>
     generate_excerpt [] n = Inr []"
proof (intro conjI impI)
  assume "int (length body) \<le> n"
  then show "generate_excerpt body n = Inr body" by (simp add: generate_excerpt_def)
next
  show "generate_excerpt [] n = Inr []" using assms by (simp add: generate_excerpt_def)
next
  assume long: "n < int (length body)"
  let ?pre = "take (nat n) body"
  have sl: "slice_to body n = ?pre" using assms by (simp add: slice_to_def)
  have len: "length ?pre = nat n" using long assms by simp
  show "\<exists>p. generate_excerpt body n = Inr (p @ ''...'') \<and>
             prefix p ?pre \<and> length (p @ ''...'') \<le> nat n + 3 \<and>
             (CHR '' '' \<in> set ?pre \<longrightarrow>
                (\<exists>q. ?pre = p @ CHR '' '' # q \<and> CHR '' '' \<notin> set q) \<and>
                \<not> cuts_word body (length p)) \<and>
             (CHR '' '' \<notin> set ?pre \<longrightarrow> p = ?pre)"
  proof (cases "CHR '' '' \<in> set ?pre")
    case False
    then have "generate_excerpt body n = Inr (?pre @ ''...'')"
      using long sl by (simp add: generate_excerpt_def rsplit_space_none)
    then show ?thesis using False len by auto
  next
    case True
    from rsplit_space_some[OF True] obtain p q where
      r: "rsplit_space ?pre = [p, q]" and e: "?pre = p @ CHR '' '' # q" and nq: "CHR '' '' \<notin> set q"
      by blast
    have g: "generate_excerpt body n = Inr (p @ ''...'')"
      using long sl r by (simp add: generate_excerpt_def)
    have pp: "prefix p ?pre" unfolding e by simp
    have lp: "length p < nat n" using arg_cong[OF e, of length] len by simp
    define rest where "rest = q @ drop (nat n) body"
    have "?pre @ drop (nat n) body = body" by simp
    then have c: "body = p @ CHR '' '' # rest" unfolding rest_def e by simp
    have "body ! length p = CHR '' ''" by (simp add: c)
    then have "is_space (body ! length p)" by (simp add: is_space_def code_def)
    then have nc: "\<not> cuts_word body (length p)" by (simp add: cuts_word_def)
    show ?thesis using g pp lp e nq nc True by auto
  qed
qed

theorem generate_excerpt_spec_witness:
  "int (length ''short post'') \<le> 150 \<and>
   generate_excerpt ''short post'' 150 = Inr ''short post'' \<and>
   9 < int (length ''hello world foo'') \<and>
   CHR '' '' \<in> set (take (nat 9) ''hello world foo'') \<and>
   generate_excerpt ''hello world foo'' 9 = Inr ''hello...'' \<and>
   \<not> cuts_word ''hello world foo'' (length ''hello'') \<and>
   CHR '' '' \<notin> set (take (nat 3) ''abcdef'') \<and>
   generate_excerpt ''abcdef'' 3 = Inr ''abc...''"
  using generate_excerpt_spec [of 150 "''short post''"]
        generate_excerpt_spec [of 9 "''hello world foo''"]
        generate_excerpt_spec [of 3 "''abcdef''"]
  by (simp add: generate_excerpt_def slice_to_def rsplit_space_def cuts_word_def
      is_space_def code_def)

text \<open>
  C1 as stated fails: content without a space among its first \<open>n\<close> characters is cut
  inside a word.
\<close>

theorem generate_excerpt_splits_word:
  "int (length ''abcdef'') > 3 \<and>
   generate_excerpt ''abcdef'' 3 = Inr (''abc'' @ ''...'') \<and>
   cuts_word ''abcdef'' (length ''abc'')"
  by (simp add: generate_excerpt_def slice_to_def rsplit_space_def cuts_word_def
      is_space_def code_def)

section \<open>Slug generator\<close>

declare slug_loop.simps [simp del]

lemma slug_loop_free: "u \<notin> slug_set ps \<Longrightarrow> slug_loop ps base c u = u"
  by (subst slug_loop.simps) (simp add: query_by_slug_truthy)

lemma slug_loop_taken:
  "u \<in> slug_set ps \<Longrightarrow> slug_loop ps base c u = slug_loop ps base (c + 1) (base @ ''-'' @ str_int c)"
  by (subst slug_loop.simps) (simp add: query_by_slug_truthy)

lemma slug_loop_fresh: "slug_loop ps base c u \<notin> slug_set ps"
proof (induction ps base c u rule: slug_loop.induct)
  case (1 ps base counter unique_slug)
  show ?case
  proof (cases "unique_slug \<in> slug_set ps")
    case True
    then have "truthy_obj (query_by_slug ps unique_slug)" by (simp add: query_by_slug_truthy)
    from "1.IH"[OF this] show ?thesis using True by (simp add: slug_loop_taken)
  next
    case False
    then show ?thesis by (simp add: slug_loop_free)
  qed
qed

lemma slug_loop_skip:
  assumes "u \<in> slug_set ps"
    and "\<forall>j. c \<le> j \<and> j < c + int n \<longrightarrow> base @ ''-'' @ str_int j \<in> slug_set ps"
    and "base @ ''-'' @ str_int (c + int n) \<notin> slug_set ps"
  shows "slug_loop ps base c u = base @ ''-'' @ str_int (c + int n)"
  using assms
proof (induction n arbitrary: c u)
  case 0
  then show ?case by (simp add: slug_loop_taken slug_loop_free)
next
  case (Suc n)
  have in1: "base @ ''-'' @ str_int c \<in> slug_set ps" using Suc.prems(2) by simp
  have all: "\<forall>j. c + 1 \<le> j \<and> j < c + 1 + int n \<longrightarrow> base @ ''-'' @ str_int j \<in> slug_set ps"
    using Suc.prems(2) by simp
  have eq: "c + int (Suc n) = c + 1 + int n" by simp
  have last: "base @ ''-'' @ str_int (c + 1 + int n) \<notin> slug_set ps"
    using Suc.prems(3) unfolding eq .
  have "slug_loop ps base c u = slug_loop ps base (c + 1) (base @ ''-'' @ str_int c)"
    using Suc.prems(1) by (rule slug_loop_taken)
  also have "\<dots> = base @ ''-'' @ str_int (c + 1 + int n)"
    by (rule Suc.IH[OF in1 all last])
  finally show ?case unfolding eq .
qed

lemma sub_seps_set: "c \<in> set (sub_seps s) \<Longrightarrow> c = CHR ''-'' \<or> (c \<in> set s \<and> \<not> is_sep c)"
proof (induction s arbitrary: c rule: sub_seps.induct)
  case 1
  then show ?case by simp
next
  case (2 d ds)
  show ?case
  proof (cases "is_sep d")
    case True
    with "2.prems" have "c = CHR ''-'' \<or> c \<in> set (sub_seps (dropWhile is_sep ds))" by auto
    then show ?thesis
    proof
      assume "c \<in> set (sub_seps (dropWhile is_sep ds))"
      from "2.IH"(1)[OF True this] show ?thesis using set_dropWhileD by fastforce
    qed simp
  next
    case False
    with "2.prems" have "c = d \<or> c \<in> set (sub_seps ds)" by auto
    then show ?thesis
    proof
      assume "c \<in> set (sub_seps ds)"
      from "2.IH"(2)[OF False this] show ?thesis by auto
    qed (simp add: False)
  qed
qed

lemma rev_dropWhile_rev: "xs = rev (dropWhile P (rev xs)) @ rev (takeWhile P (rev xs))"
proof -
  have "rev (takeWhile P (rev xs) @ dropWhile P (rev xs)) = rev (rev xs)"
    by (simp only: takeWhile_dropWhile_id)
  then show ?thesis by (simp only: rev_append rev_rev_ident)
qed

lemma strip_hyphen_decomp:
  "\<exists>a b. s = a @ strip_hyphen s @ b"
proof -
  let ?P = "\<lambda>c. c = CHR ''-''"
  let ?xs = "dropWhile ?P s"
  have "?xs = strip_hyphen s @ rev (takeWhile ?P (rev ?xs))"
    unfolding strip_hyphen_def by (rule rev_dropWhile_rev)
  moreover have "s = takeWhile ?P s @ ?xs" by simp
  ultimately have "s = takeWhile ?P s @ strip_hyphen s @ rev (takeWhile ?P (rev ?xs))" by simp
  then show ?thesis by blast
qed

lemma strip_hyphen_set: "set (strip_hyphen s) \<subseteq> set s"
proof -
  obtain a b where "s = a @ strip_hyphen s @ b" using strip_hyphen_decomp by blast
  then have "set s = set a \<union> set (strip_hyphen s) \<union> set b" by (metis set_append Un_assoc)
  then show ?thesis by blast
qed

lemma strip_hyphen_last: "strip_hyphen s \<noteq> [] \<Longrightarrow> last (strip_hyphen s) \<noteq> CHR ''-''"
proof -
  let ?P = "\<lambda>c. c = CHR ''-''"
  let ?ys = "dropWhile ?P (rev (dropWhile ?P s))"
  assume "strip_hyphen s \<noteq> []"
  then have ne: "?ys \<noteq> []" by (simp add: strip_hyphen_def)
  then have "\<not> ?P (hd ?ys)" by (rule hd_dropWhile)
  moreover have "last (strip_hyphen s) = hd ?ys" using ne by (simp add: strip_hyphen_def last_rev)
  ultimately show ?thesis by simp
qed

lemma strip_hyphen_hd: "strip_hyphen s \<noteq> [] \<Longrightarrow> hd (strip_hyphen s) \<noteq> CHR ''-''"
proof -
  let ?P = "\<lambda>c. c = CHR ''-''"
  let ?xs = "dropWhile ?P s"
  assume ne: "strip_hyphen s \<noteq> []"
  have xs: "?xs = strip_hyphen s @ rev (takeWhile ?P (rev ?xs))"
    unfolding strip_hyphen_def by (rule rev_dropWhile_rev)
  then have "hd ?xs = hd (strip_hyphen s @ rev (takeWhile ?P (rev ?xs)))" by (rule arg_cong)
  then have h: "hd ?xs = hd (strip_hyphen s)" using ne by simp
  have "?xs \<noteq> []" using xs ne by (metis append_is_Nil_conv)
  then have "\<not> ?P (hd ?xs)" by (rule hd_dropWhile)
  with h show ?thesis by simp
qed

lemma code_char_of: "code (char_of n) = n mod 256"
  by (simp add: code_def)

lemma code_inj: "code a = code b \<Longrightarrow> a = b"
  by (simp add: code_def)

lemma code_hyphen: "code (CHR ''-'') = 45" and code_underscore: "code (CHR ''_'') = 95"
  by (simp_all add: code_def)

lemma lower_char_ascii_alnum:
  assumes "is_ascii d" and "is_alnum (lower_char d)"
  shows "slug_char (lower_char d)"
proof (cases "65 \<le> code d \<and> code d \<le> 90")
  case True
  then have "lower_char d = char_of (code d + 32)" by (simp add: lower_char_def Let_def)
  then have "code (lower_char d) = code d + 32" using True by (simp add: code_char_of)
  with True show ?thesis by (simp add: slug_char_def)
next
  case False
  with assms(1) have "lower_char d = d" by (auto simp: lower_char_def is_ascii_def Let_def)
  with assms False show ?thesis
    by (auto simp: slug_char_def is_alnum_def is_ascii_def Let_def)
qed

lemma lower_char_idem: "lower_char (lower_char d) = lower_char d"
proof (cases "(65 \<le> code d \<and> code d \<le> 90) \<or> (192 \<le> code d \<and> code d \<le> 214)
    \<or> (216 \<le> code d \<and> code d \<le> 222)")
  case True
  then have l: "lower_char d = char_of (code d + 32)" by (simp add: lower_char_def Let_def)
  have "code (lower_char d) = code d + 32" using True unfolding l by (auto simp: code_char_of)
  with True have "\<not> ((65 \<le> code (lower_char d) \<and> code (lower_char d) \<le> 90)
      \<or> (192 \<le> code (lower_char d) \<and> code (lower_char d) \<le> 214)
      \<or> (216 \<le> code (lower_char d) \<and> code (lower_char d) \<le> 222))" by auto
  then show ?thesis by (subst lower_char_def) (auto simp: Let_def)
next
  case False
  then have "lower_char d = d" by (auto simp: lower_char_def Let_def)
  then show ?thesis by simp
qed

lemma base_slug_chars:
  assumes "c \<in> set (base_slug t)"
  shows "c = CHR ''-'' \<or> (is_alnum c \<and> (\<exists>d\<in>set t. c = lower_char d))"
proof -
  from assms have "c \<in> set (sub_seps (sub_strip (lower t)))"
    using strip_hyphen_set by (auto simp: base_slug_def)
  then have "c = CHR ''-'' \<or> (c \<in> set (sub_strip (lower t)) \<and> \<not> is_sep c)"
    by (rule sub_seps_set)
  then show ?thesis
  proof
    assume "c \<in> set (sub_strip (lower t)) \<and> \<not> is_sep c"
    then have "c \<in> set (lower t)" and "is_word c \<or> is_space c \<or> c = CHR ''-''" and "\<not> is_sep c"
      by (auto simp: sub_strip_def)
    then have "is_alnum c" and "\<exists>d\<in>set t. c = lower_char d"
      by (auto simp: is_sep_def is_word_def lower_def)
    then show ?thesis by blast
  qed simp
qed

lemma generate_slug_empty: "BlogPost_generate_slug [] t = base_slug t"
  by (simp add: BlogPost_generate_slug_def slug_loop_free slug_set_def)

text \<open>
  C5 (as the code has it). Against an empty collection the slug is the base slug, a
  function of the title alone. Each of its characters is a hyphen or an alphanumeric
  character that \<open>lower\<close> leaves unchanged; for a title of ASCII characters each is in
  \<open>[a-z0-9-]\<close>. A slug that is not empty neither starts nor ends with a hyphen.
\<close>

theorem generate_slug_empty_collection:
  "BlogPost_generate_slug [] t = base_slug t \<and>
   (\<forall>c\<in>set (BlogPost_generate_slug [] t). c = CHR ''-'' \<or> (is_alnum c \<and> lower_char c = c)) \<and>
   ((\<forall>d\<in>set t. is_ascii d) \<longrightarrow> (\<forall>c\<in>set (BlogPost_generate_slug [] t). slug_char c)) \<and>
   (BlogPost_generate_slug [] t \<noteq> [] \<longrightarrow>
      hd (BlogPost_generate_slug [] t) \<noteq> CHR ''-'' \<and> last (BlogPost_generate_slug [] t) \<noteq> CHR ''-'')"
proof (intro conjI)
  show "BlogPost_generate_slug [] t = base_slug t" by (rule generate_slug_empty)
next
  show "\<forall>c\<in>set (BlogPost_generate_slug [] t). c = CHR ''-'' \<or> (is_alnum c \<and> lower_char c = c)"
  proof
    fix c assume "c \<in> set (BlogPost_generate_slug [] t)"
    then have "c \<in> set (base_slug t)" by (simp only: generate_slug_empty)
    from base_slug_chars[OF this] show "c = CHR ''-'' \<or> (is_alnum c \<and> lower_char c = c)"
      using lower_char_idem by auto
  qed
next
  show "(\<forall>d\<in>set t. is_ascii d) \<longrightarrow> (\<forall>c\<in>set (BlogPost_generate_slug [] t). slug_char c)"
  proof (intro impI ballI)
    fix c assume a: "\<forall>d\<in>set t. is_ascii d" and "c \<in> set (BlogPost_generate_slug [] t)"
    then have "c \<in> set (base_slug t)" by (simp only: generate_slug_empty)
    from base_slug_chars[OF this] show "slug_char c"
    proof
      assume "c = CHR ''-''" then show ?thesis by (simp add: slug_char_def)
    next
      assume "is_alnum c \<and> (\<exists>d\<in>set t. c = lower_char d)"
      then obtain d where "d \<in> set t" "c = lower_char d" "is_alnum c" by blast
      with a show ?thesis using lower_char_ascii_alnum by blast
    qed
  qed
next
  show "BlogPost_generate_slug [] t \<noteq> [] \<longrightarrow>
      hd (BlogPost_generate_slug [] t) \<noteq> CHR ''-'' \<and> last (BlogPost_generate_slug [] t) \<noteq> CHR ''-''"
    unfolding generate_slug_empty base_slug_def
    using strip_hyphen_hd strip_hyphen_last by blast
qed

theorem generate_slug_empty_collection_witness:
  "list_all is_ascii ''Hello, World!'' \<and>
   BlogPost_generate_slug [] ''Hello, World!'' = ''hello-world'' \<and>
   list_all slug_char ''hello-world'' \<and>
   hd ''hello-world'' \<noteq> CHR ''-'' \<and> last ''hello-world'' \<noteq> CHR ''-''"
proof -
  note th = generate_slug_empty_collection [of "''Hello, World!''"]
  have e: "base_slug ''Hello, World!'' = ''hello-world''" by code_simp
  have a: "\<forall>d\<in>set ''Hello, World!''. is_ascii d" by (simp add: is_ascii_def code_def)
  from th have "BlogPost_generate_slug [] ''Hello, World!'' = base_slug ''Hello, World!''"
    by (rule conjunct1)
  then have g: "BlogPost_generate_slug [] ''Hello, World!'' = ''hello-world''"
    by (simp only: e)
  from th a have "\<forall>c\<in>set (BlogPost_generate_slug [] ''Hello, World!''). slug_char c"
    by blast
  then have c: "\<forall>c\<in>set ''hello-world''. slug_char c" unfolding g .
  have ne: "BlogPost_generate_slug [] ''Hello, World!'' \<noteq> []" unfolding g by simp
  from th ne have "hd (BlogPost_generate_slug [] ''Hello, World!'') \<noteq> CHR ''-'' \<and>
      last (BlogPost_generate_slug [] ''Hello, World!'') \<noteq> CHR ''-''"
    by blast
  then have h: "hd ''hello-world'' \<noteq> CHR ''-'' \<and> last ''hello-world'' \<noteq> CHR ''-''"
    unfolding g .
  from a have a': "list_all is_ascii ''Hello, World!''" unfolding list_all_iff .
  from c have c': "list_all slug_char ''hello-world''" unfolding list_all_iff .
  from a' g c' h show ?thesis by blast
qed

text \<open>
  C5 as stated fails: \<open>\w\<close> matches the letters outside ASCII too, so the title
  \<open>Caf\<close> followed by U+00E9 keeps that letter in its slug.
\<close>

theorem generate_slug_non_ascii:
  "BlogPost_generate_slug [] [CHR ''C'', CHR ''a'', CHR ''f'', CHR 0xE9]
     = [CHR ''c'', CHR ''a'', CHR ''f'', CHR 0xE9] \<and>
   \<not> slug_char (CHR 0xE9)"
proof -
  have "BlogPost_generate_slug [] [CHR ''C'', CHR ''a'', CHR ''f'', CHR 0xE9]
     = [CHR ''c'', CHR ''a'', CHR ''f'', CHR 0xE9]" by code_simp
  moreover have "\<not> slug_char (CHR 0xE9)" by (simp add: slug_char_def code_def)
  ultimately show ?thesis by blast
qed

section \<open>Read-time estimator\<close>

lemma split_ws_Nil:
  assumes "dropWhile is_space s = []"
  shows "split_ws s = []"
  by (subst split_ws.simps) (simp only: assms list.case)

lemma split_ws_Cons:
  assumes "dropWhile is_space s = c # cs"
  shows "split_ws s = takeWhile (\<lambda>x. \<not> is_space x) (c # cs)
           # split_ws (dropWhile (\<lambda>x. \<not> is_space x) (c # cs))"
  by (subst split_ws.simps) (simp only: assms list.case)

lemma split_ws_tokens: "w \<in> set (split_ws s) \<Longrightarrow> w \<noteq> [] \<and> (\<forall>c\<in>set w. \<not> is_space c)"
proof (induction s arbitrary: w rule: split_ws.induct)
  case (1 s)
  show ?case
  proof (cases "dropWhile is_space s")
    case Nil
    with "1.prems" show ?thesis by (simp add: split_ws_Nil[OF Nil])
  next
    case (Cons c cs)
    have nc: "\<not> is_space c" using Cons hd_dropWhile[of is_space s] by simp
    from "1.prems" Cons have "w = takeWhile (\<lambda>x. \<not> is_space x) (c # cs)
        \<or> w \<in> set (split_ws (dropWhile (\<lambda>x. \<not> is_space x) (c # cs)))"
      by (simp add: split_ws_Cons[OF Cons])
    then show ?thesis
    proof
      assume w: "w = takeWhile (\<lambda>x. \<not> is_space x) (c # cs)"
      then have "w \<noteq> []" using nc by simp
      moreover have "\<forall>x\<in>set w. \<not> is_space x" unfolding w using set_takeWhileD by fastforce
      ultimately show ?thesis by blast
    next
      assume "w \<in> set (split_ws (dropWhile (\<lambda>x. \<not> is_space x) (c # cs)))"
      with "1.IH"[OF Cons] show ?thesis by blast
    qed
  qed
qed

lemma filter_dropWhile_space: "filter (\<lambda>c. \<not> is_space c) (dropWhile is_space s) = filter (\<lambda>c. \<not> is_space c) s"
  by (induction s) auto

lemma filter_takeWhile_nonspace:
  "filter (\<lambda>c. \<not> is_space c) xs
   = takeWhile (\<lambda>x. \<not> is_space x) xs @ filter (\<lambda>c. \<not> is_space c) (dropWhile (\<lambda>x. \<not> is_space x) xs)"
  by (induction xs) auto

lemma concat_split_ws: "concat (split_ws s) = filter (\<lambda>c. \<not> is_space c) s"
proof (induction s rule: split_ws.induct)
  case (1 s)
  show ?case
  proof (cases "dropWhile is_space s")
    case Nil
    have "filter (\<lambda>c. \<not> is_space c) (dropWhile is_space s) = []"
      by (simp only: Nil filter.simps)
    then have "filter (\<lambda>c. \<not> is_space c) s = []" by (simp only: filter_dropWhile_space)
    then show ?thesis by (simp add: split_ws_Nil[OF Nil])
  next
    case (Cons c cs)
    have "concat (split_ws s) = takeWhile (\<lambda>x. \<not> is_space x) (c # cs)
        @ concat (split_ws (dropWhile (\<lambda>x. \<not> is_space x) (c # cs)))"
      by (simp add: split_ws_Cons[OF Cons])
    also have "\<dots> = takeWhile (\<lambda>x. \<not> is_space x) (c # cs)
        @ filter (\<lambda>c. \<not> is_space c) (dropWhile (\<lambda>x. \<not> is_space x) (c # cs))"
      by (simp only: "1.IH"[OF Cons])
    also have "\<dots> = filter (\<lambda>c. \<not> is_space c) (c # cs)"
      by (rule filter_takeWhile_nonspace[symmetric])
    also have "\<dots> = filter (\<lambda>c. \<not> is_space c) (dropWhile is_space s)" by (simp only: Cons)
    also have "\<dots> = filter (\<lambda>c. \<not> is_space c) s" by (rule filter_dropWhile_space)
    finally show ?thesis .
  qed
qed

lemma str_int_1: "str_int 1 = ''1''" by code_simp
lemma str_int_2: "str_int 2 = ''2''" by code_simp

text \<open>
  C8. The words counted are the maximal runs of characters that are not whitespace:
  each token of the split is such a run and together they hold every character of the
  content that is not whitespace. The label is the decimal rendering of
  \<open>max 1 (word_count div 200)\<close> followed by \<open>min read\<close>; fewer than 200 words give
  \<open>1 min read\<close> and exactly 400 words give \<open>2 min read\<close>.
\<close>

theorem calculate_read_time_spec:
  "(\<forall>w\<in>set (split_ws body). w \<noteq> [] \<and> (\<forall>c\<in>set w. \<not> is_space c)) \<and>
   concat (split_ws body) = filter (\<lambda>c. \<not> is_space c) body \<and>
   word_count body = int (length (split_ws body)) \<and>
   calculate_read_time body = str_int (max 1 (word_count body div 200)) @ '' min read'' \<and>
   (word_count body < 200 \<longrightarrow> calculate_read_time body = ''1 min read'') \<and>
   (word_count body = 400 \<longrightarrow> calculate_read_time body = ''2 min read'')"
proof (intro conjI impI)
  show "\<forall>w\<in>set (split_ws body). w \<noteq> [] \<and> (\<forall>c\<in>set w. \<not> is_space c)"
    using split_ws_tokens by blast
  show "concat (split_ws body) = filter (\<lambda>c. \<not> is_space c) body" by (rule concat_split_ws)
  show "word_count body = int (length (split_ws body))" by (simp add: word_count_def)
  show "calculate_read_time body = str_int (max 1 (word_count body div 200)) @ '' min read''"
    by (simp add: calculate_read_time_def Let_def)
next
  assume "word_count body < 200"
  moreover have "0 \<le> word_count body" by (simp add: word_count_def)
  ultimately have "word_count body div 200 = 0" by simp
  then have "max 1 (word_count body div 200) = 1" by simp
  then show "calculate_read_time body = ''1 min read''"
    by (simp add: calculate_read_time_def Let_def str_int_1)
next
  assume "word_count body = 400"
  then have "max 1 (word_count body div 200) = 2" by simp
  then show "calculate_read_time body = ''2 min read''"
    by (simp add: calculate_read_time_def Let_def str_int_2)
qed

lemma split_ws_space: "split_ws (CHR '' '' # s) = split_ws s"
proof -
  have "dropWhile is_space (CHR '' '' # s) = dropWhile is_space s"
    by (simp add: is_space_def code_def)
  then show ?thesis by (subst split_ws.simps, subst (2) split_ws.simps) (simp only:)
qed

lemma split_ws_word: "split_ws (''ab '' @ s) = ''ab'' # split_ws s"
proof -
  have d: "dropWhile is_space (''ab '' @ s) = CHR ''a'' # (''b '' @ s)"
    by (simp add: is_space_def code_def)
  have "split_ws (''ab '' @ s) = ''ab'' # split_ws (CHR '' '' # s)"
    by (subst split_ws_Cons[OF d]) (simp add: is_space_def code_def)
  then show ?thesis by (simp only: split_ws_space)
qed

lemma split_ws_empty: "split_ws [] = []"
  by (rule split_ws_Nil) simp

lemma word_count_replicate: "word_count (concat (replicate n ''ab '')) = int n"
proof -
  have "split_ws (concat (replicate n ''ab '')) = replicate n ''ab''"
  proof (induction n)
    case 0
    show ?case by (simp add: split_ws_empty)
  next
    case (Suc n)
    have "concat (replicate (Suc n) ''ab '') = ''ab '' @ concat (replicate n ''ab '')" by simp
    then show ?case by (simp only: split_ws_word Suc replicate_Suc)
  qed
  then show ?thesis by (simp add: word_count_def)
qed

theorem calculate_read_time_spec_witness:
  "word_count ''The quick brown fox'' < 200 \<and>
   calculate_read_time ''The quick brown fox'' = ''1 min read'' \<and>
   word_count (concat (replicate 400 ''ab '')) = 400 \<and>
   calculate_read_time (concat (replicate 400 ''ab '')) = ''2 min read''"
proof -
  have a: "word_count ''The quick brown fox'' < 200" by code_simp
  have b: "word_count (concat (replicate 400 ''ab '')) = 400"
    using word_count_replicate[of 400] by simp
  from a calculate_read_time_spec [of "''The quick brown fox''"]
  have "calculate_read_time ''The quick brown fox'' = ''1 min read''" by blast
  moreover from b calculate_read_time_spec [of "concat (replicate 400 ''ab '')"]
  have "calculate_read_time (concat (replicate 400 ''ab '')) = ''2 min read''" by blast
  ultimately show ?thesis using a b by blast
qed

section \<open>Live search\<close>

lemma length_strip_le: "length (strip s) \<le> length s"
proof -
  have "length (strip s) = length (dropWhile is_space (rev (dropWhile is_space s)))"
    by (simp add: strip_def)
  also have "\<dots> \<le> length (rev (dropWhile is_space s))" by (rule length_dropWhile_le)
  also have "\<dots> \<le> length s" by (simp add: length_dropWhile_le)
  finally show ?thesis .
qed

text \<open>
  C9. A request without a search term, or with a term of fewer than three characters
  (before or after the surrounding whitespace is removed), is answered with the empty
  result list, without an error and without a query to the storage.
\<close>

theorem api_search_short_term:
  "api_search None d = \<lparr>results = Inr [], queried_storage = False\<rparr> \<and>
   (length term < 3 \<longrightarrow> api_search (Some term) d = \<lparr>results = Inr [], queried_storage = False\<rparr>) \<and>
   (length (strip term) < 3 \<longrightarrow> api_search (Some term) d = \<lparr>results = Inr [], queried_storage = False\<rparr>)"
proof (intro conjI impI)
  show "api_search None d = \<lparr>results = Inr [], queried_storage = False\<rparr>"
    by (simp add: api_search_def strip_def)
next
  assume "length term < 3"
  with length_strip_le[of "term"] have "length (strip term) < 3" by simp
  then show "api_search (Some term) d = \<lparr>results = Inr [], queried_storage = False\<rparr>"
    by (simp add: api_search_def Let_def)
next
  assume "length (strip term) < 3"
  then show "api_search (Some term) d = \<lparr>results = Inr [], queried_storage = False\<rparr>"
    by (simp add: api_search_def Let_def)
qed

theorem api_search_short_term_witness:
  "length ''ab'' < 3 \<and>
   api_search (Some ''ab'') initial_db = \<lparr>results = Inr [], queried_storage = False\<rparr> \<and>
   length (strip ''  ab  '') < 3 \<and>
   api_search (Some ''  ab  '') initial_db = \<lparr>results = Inr [], queried_storage = False\<rparr>"
proof -
  have a: "length ''ab'' < 3" by simp
  have b: "length (strip ''  ab  '') < 3" by code_simp
  from a api_search_short_term [of initial_db "''ab''"]
  have "api_search (Some ''ab'') initial_db = \<lparr>results = Inr [], queried_storage = False\<rparr>"
    by blast
  moreover from b api_search_short_term [of initial_db "''  ab  ''"]
  have "api_search (Some ''  ab  '') initial_db = \<lparr>results = Inr [], queried_storage = False\<rparr>"
    by blast
  ultimately show ?thesis using a b by blast
qed

section \<open>Constructing and storing posts\<close>

lemma generate_excerpt_total: "\<exists>x. generate_excerpt c n = Inr x"
proof (cases "int (length c) \<le> n")
  case True
  then show ?thesis by (simp add: generate_excerpt_def)
next
  case False
  show ?thesis
  proof (cases "CHR '' '' \<in> set (slice_to c n)")
    case True
    from rsplit_space_some[OF True] obtain p q where "rsplit_space (slice_to c n) = [p, q]" by blast
    with False show ?thesis by (simp add: generate_excerpt_def)
  next
    case f: False
    with False show ?thesis by (simp add: generate_excerpt_def rsplit_space_none)
  qed
qed

lemma init_slug_other:
  "title (init_slug ps p) = title p" "content (init_slug ps p) = content p"
  "excerpt (init_slug ps p) = excerpt p" "published (init_slug ps p) = published p"
  "date_published (init_slug ps p) = date_published p" "read_time (init_slug ps p) = read_time p"
  "author_id (init_slug ps p) = author_id p" "category_id (init_slug ps p) = category_id p"
  by (simp_all add: init_slug_def split: option.splits)

lemma init_slug_generated:
  "title p = Some t \<Longrightarrow> t \<noteq> [] \<Longrightarrow> \<not> truthy_str (slug p) \<Longrightarrow>
   slug (init_slug ps p) = Some (BlogPost_generate_slug ps t)"
  by (simp add: init_slug_def)

lemma init_excerpt_total: "\<exists>q. init_excerpt p = Inr q"
proof (cases "content p")
  case None
  then show ?thesis by (simp add: init_excerpt_def)
next
  case (Some c)
  obtain x where "generate_excerpt c 150 = Inr x" using generate_excerpt_total by blast
  with Some show ?thesis by (simp add: init_excerpt_def)
qed

lemma init_excerpt_other:
  assumes "init_excerpt p = Inr q"
  shows "slug q = slug p" "published q = published p" "date_published q = date_published p"
    "title q = title p" "content q = content p" "read_time q = read_time p"
    "author_id q = author_id p" "category_id q = category_id p"
  using assms by (auto simp: init_excerpt_def split: option.splits if_splits sum.splits)

lemma init_read_time_other:
  "slug (init_read_time p) = slug p" "published (init_read_time p) = published p"
  "date_published (init_read_time p) = date_published p" "title (init_read_time p) = title p"
  "excerpt (init_read_time p) = excerpt p" "content (init_read_time p) = content p"
  "author_id (init_read_time p) = author_id p" "category_id (init_read_time p) = category_id p"
  by (simp_all add: init_read_time_def split: option.splits)

lemma init_date_published_other:
  "slug (init_date_published now p) = slug p" "published (init_date_published now p) = published p"
  "title (init_date_published now p) = title p" "excerpt (init_date_published now p) = excerpt p"
  "content (init_date_published now p) = content p"
  "author_id (init_date_published now p) = author_id p"
  "category_id (init_date_published now p) = category_id p"
  by (simp_all add: init_date_published_def)

lemma BlogPost_init_total: "\<exists>p. BlogPost_init kwargs ps now = Inr p"
proof -
  obtain q where "init_excerpt (init_slug ps kwargs) = Inr q" using init_excerpt_total by blast
  then show ?thesis by (simp add: BlogPost_init_def)
qed

lemma BlogPost_init_fields:
  assumes "BlogPost_init kwargs ps now = Inr p"
  shows "slug p = slug (init_slug ps kwargs)"
    and "published p = published kwargs"
    and "title p = title kwargs"
    and "date_published p =
          (if truthy_bool (published kwargs) \<and> \<not> truthy_obj (date_published kwargs)
           then Some now else date_published kwargs)"
proof -
  obtain q where q: "init_excerpt (init_slug ps kwargs) = Inr q" using init_excerpt_total by blast
  with assms have p: "p = init_date_published now (init_read_time q)"
    by (simp add: BlogPost_init_def)
  note o = init_excerpt_other[OF q]
  show "slug p = slug (init_slug ps kwargs)"
    by (simp add: p init_date_published_other init_read_time_other o)
  show "published p = published kwargs"
    by (simp add: p init_date_published_other init_read_time_other o init_slug_other)
  show "title p = title kwargs"
    by (simp add: p init_date_published_other init_read_time_other o init_slug_other)
  show "date_published p =
          (if truthy_bool (published kwargs) \<and> \<not> truthy_obj (date_published kwargs)
           then Some now else date_published kwargs)"
    by (simp add: p init_date_published_def init_read_time_other o init_slug_other)
qed

lemma BlogPost_init_not_null:
  assumes "BlogPost_init kwargs ps now = Inr p" and "not_null kwargs"
  shows "not_null p"
proof -
  obtain q where q: "init_excerpt (init_slug ps kwargs) = Inr q" using init_excerpt_total by blast
  with assms(1) have p: "p = init_date_published now (init_read_time q)"
    by (simp add: BlogPost_init_def)
  note o = init_excerpt_other[OF q]
  have "title p = title kwargs" "content p = content kwargs"
    "author_id p = author_id kwargs" "category_id p = category_id kwargs"
    by (simp_all add: p init_date_published_other init_read_time_other o init_slug_other)
  with assms(2) show ?thesis by (simp add: not_null_def)
qed

lemma not_null_tags: "not_null (p\<lparr>tags := ns\<rparr>) = not_null p"
  by (simp add: not_null_def)

lemma slug_set_append: "slug_set (ps @ qs) = slug_set ps \<union> slug_set qs"
  by (auto simp: slug_set_def)

lemma slug_set_single: "slug_set [p] = (case slug p of None \<Rightarrow> {} | Some s \<Rightarrow> {s})"
  by (auto simp: slug_set_def split: option.splits)

lemma with_defaults_slug: "slug (with_defaults k now p) = slug p"
  by (simp add: with_defaults_def)

lemma with_defaults_date_published: "date_published (with_defaults k now p) = date_published p"
  by (simp add: with_defaults_def)

lemma insert_post_posts:
  assumes "insert_post p now d = Inr d'"
  shows "posts d' = posts d @ [with_defaults (Suc (length (posts d))) now p]"
    and "comments d' = comments d"
  using assms by (auto simp: insert_post_def split: option.splits if_splits)

lemma insert_post_fresh:
  assumes "slug p = Some s" and "s \<notin> slug_set (posts d)" and "not_null p"
  shows "insert_post p now d
         = Inr (d\<lparr>posts := posts d @ [with_defaults (Suc (length (posts d))) now p]\<rparr>)"
  using assms by (simp add: insert_post_def query_by_slug_truthy)

lemma BlogPost_generate_slug_fresh: "BlogPost_generate_slug ps t \<notin> slug_set ps"
  by (simp add: BlogPost_generate_slug_def slug_loop_fresh)

section \<open>Publication timestamp\<close>

text \<open>
  A valid form that names no tag twice always stores a post: the generated slug is new
  to the table, so the unique constraint holds. The handler passes no \<open>published\<close>
  argument, so the flag is still \<open>None\<close> while the constructor runs: the stored post is
  published by the column default and has no publication timestamp.
\<close>

lemma stored_post_fields:
  assumes "BlogPost_init k ps now = Inr q" and "published k = None" and "date_published k = None"
    and "insert_post (q\<lparr>tags := ns\<rparr>) now d0 = Inr d'"
  shows "\<exists>p. posts d' = posts d0 @ [p] \<and> comments d' = comments d0 \<and>
           post_id p = Some (Suc (length (posts d0))) \<and> slug p = slug q \<and>
           published p = Some True \<and> date_published p = None"
proof -
  note fs = BlogPost_init_fields[OF assms(1)]
  have pq: "published q = None" using fs(2) assms(2) by simp
  have dq: "date_published q = None" using fs(4) assms(2,3) by (simp add: truthy_bool_def)
  define p where "p = with_defaults (Suc (length (posts d0))) now (q\<lparr>tags := ns\<rparr>)"
  have 1: "posts d' = posts d0 @ [p]" and 2: "comments d' = comments d0"
    using insert_post_posts[OF assms(4)] by (simp_all add: p_def)
  have 3: "post_id p = Some (Suc (length (posts d0)))" by (simp add: p_def with_defaults_def)
  have 4: "slug p = slug q" by (simp add: p_def with_defaults_def)
  have 5: "published p = Some True" using pq by (simp add: p_def with_defaults_def)
  have 6: "date_published p = None" using dq by (simp add: p_def with_defaults_def)
  from 1 2 3 4 5 6 show ?thesis by blast
qed

lemma create_post_result:
  assumes "validate_on_submit f d" and "distinct (form_tag_names f)"
  shows "\<exists>p d'. create_post f uid now d = Inr d' \<and> posts d' = posts d @ [p] \<and>
           comments d' = comments d \<and>
           post_id p = Some (Suc (length (posts d))) \<and>
           slug p = Some (BlogPost_generate_slug (posts d) (form_title f)) \<and>
           published p = Some True \<and> date_published p = None"
proof -
  define k where "k = create_post_kwargs f uid"
  define names where "names = form_tag_names f"
  define d0 where "d0 = d\<lparr>tag_names := add_tags names (tag_names d)\<rparr>"
  obtain q where q: "BlogPost_init k (posts d) now = Inr q" using BlogPost_init_total by blast
  from assms(1) have "strip (form_title f) \<noteq> []" by (simp add: validate_on_submit_def)
  then have t: "form_title f \<noteq> []" by (auto simp: strip_def)
  have k1: "title k = Some (form_title f)" by (simp add: k_def create_post_kwargs_def)
  have k2: "\<not> truthy_str (slug k)" by (simp add: k_def create_post_kwargs_def truthy_str_def)
  have k3: "published k = None" by (simp add: k_def create_post_kwargs_def)
  have k4: "date_published k = None" by (simp add: k_def create_post_kwargs_def)
  have k5: "not_null k" by (simp add: k_def create_post_kwargs_def not_null_def)
  have sq: "slug q = Some (BlogPost_generate_slug (posts d) (form_title f))"
    using BlogPost_init_fields(1)[OF q] init_slug_generated[OF k1 t k2] by simp
  define q' where "q' = q\<lparr>tags := names\<rparr>"
  have sq': "slug q' = Some (BlogPost_generate_slug (posts d) (form_title f))"
    using sq by (simp add: q'_def)
  have nn: "not_null q'"
    unfolding q'_def not_null_tags by (rule BlogPost_init_not_null[OF q k5])
  have pd0: "posts d0 = posts d" and cd0: "comments d0 = comments d" by (simp_all add: d0_def)
  have fr: "BlogPost_generate_slug (posts d) (form_title f) \<notin> slug_set (posts d0)"
    unfolding pd0 by (rule BlogPost_generate_slug_fresh)
  from insert_post_fresh[OF sq' fr nn, of now]
  obtain d' where ins: "insert_post q' now d0 = Inr d'" by blast
  have dn: "distinct names" using assms(2) by (simp add: names_def)
  have cp: "create_post f uid now d = Inr d'"
    using assms(1) q ins dn
    by (simp add: create_post_def k_def[symmetric]
        names_def[symmetric] d0_def[symmetric] q'_def[symmetric] Let_def)
  from stored_post_fields[OF q k3 k4 ins[unfolded q'_def]]
  obtain p where "posts d' = posts d0 @ [p]" "comments d' = comments d0"
    "post_id p = Some (Suc (length (posts d0)))" "slug p = slug q"
    "published p = Some True" "date_published p = None" by blast
  with cp sq pd0 cd0 show ?thesis by auto
qed

lemma create_post_stored:
  assumes "create_post f uid now d = Inr d'"
  shows "d' = d \<or> (\<exists>p. posts d' = posts d @ [p] \<and> comments d' = comments d \<and>
           published p = Some True \<and> date_published p = None)"
proof (cases "validate_on_submit f d")
  case False
  with assms show ?thesis by (simp add: create_post_def)
next
  case True
  define k where "k = create_post_kwargs f uid"
  define d0 where "d0 = d\<lparr>tag_names := add_tags (form_tag_names f) (tag_names d)\<rparr>"
  obtain q where q: "BlogPost_init k (posts d) now = Inr q" using BlogPost_init_total by blast
  have k3: "published k = None" and k4: "date_published k = None"
    by (simp_all add: k_def create_post_kwargs_def)
  have pd0: "posts d0 = posts d" and cd0: "comments d0 = comments d" by (simp_all add: d0_def)
  from assms True q have ins: "insert_post (q\<lparr>tags := form_tag_names f\<rparr>) now d0 = Inr d'"
    by (simp add: create_post_def k_def[symmetric]
        d0_def[symmetric] Let_def split: if_splits)
  from stored_post_fields[OF q k3 k4 ins] show ?thesis by (auto simp: pd0 cd0)
qed

lemma seed_post_stored:
  assumes "seed_post (seed_post_kwargs t e c uid cid r fl) names now d = Inr d'"
  shows "\<exists>p. posts d' = posts d @ [p] \<and> comments d' = comments d \<and>
           published p = Some True \<and> date_published p = None"
proof -
  define k where "k = seed_post_kwargs t e c uid cid r fl"
  obtain q where q: "BlogPost_init k (posts d) now = Inr q" using BlogPost_init_total by blast
  have k3: "published k = None" and k4: "date_published k = None"
    by (simp_all add: k_def seed_post_kwargs_def)
  from assms q have ins: "insert_post (q\<lparr>tags := names\<rparr>) now d = Inr d'"
    by (simp add: seed_post_def k_def[symmetric] split: if_splits)
  from stored_post_fields[OF q k3 k4 ins] show ?thesis by auto
qed

lemma create_post_posts:
  assumes "create_post f uid now d = Inr d'"
  shows "prefix (posts d) (posts d') \<and> comments d' = comments d"
  using create_post_stored[OF assms] by auto

lemma seed_post_posts:
  assumes "seed_post (seed_post_kwargs t e c uid cid r fl) names now d = Inr d'"
  shows "prefix (posts d) (posts d') \<and> comments d' = comments d"
  using seed_post_stored[OF assms] by auto

lemma api_add_comment_posts: "api_add_comment pid txt uid d = (r, d') \<Longrightarrow> posts d' = posts d"
  by (auto simp: api_add_comment_def insert_comment_def Let_def split: if_splits option.splits)

lemma app_step_posts: "app_step d d' \<Longrightarrow> prefix (posts d) (posts d')"
proof (induction rule: app_step.induct)
  case (step_create_post f uid now d d')
  from create_post_posts[OF this] show ?case by (rule conjunct1)
next
  case (step_seed_post t e c uid cid r fl names now d d')
  from seed_post_posts[OF this] show ?case by (rule conjunct1)
next
  case (step_add_comment pid body uid d r d')
  from api_add_comment_posts[OF this] show ?case by simp
qed

lemma app_steps_posts: "app_step\<^sup>*\<^sup>* d d' \<Longrightarrow> prefix (posts d) (posts d')"
proof (induction rule: rtranclp_induct)
  case base
  show ?case by simp
next
  case (step y z)
  from step.IH app_step_posts[OF step.hyps(2)] show ?case by (rule prefix_order.trans)
qed

text \<open>
  The constructor does set the timestamp when it sees the flag: a post built with the
  published flag true and no publication timestamp gets the construction time.
\<close>

lemma constructor_sets_date_published:
  assumes "truthy_bool (published kwargs)" and "date_published kwargs = None"
  shows "\<exists>p. BlogPost_init kwargs ps now = Inr p \<and> date_published p = Some now"
proof -
  obtain p where p: "BlogPost_init kwargs ps now = Inr p" using BlogPost_init_total by blast
  from BlogPost_init_fields(4)[OF p] assms have "date_published p = Some now"
    by (simp add: truthy_obj_def)
  with p show ?thesis by blast
qed

text \<open>
  Neither the handler nor the seed script passes the flag, so the constructor never
  sees it: every post that the handlers store is published, by the column default, and
  has no publication timestamp.
\<close>

lemma handlers_pass_no_published:
  "\<not> truthy_bool (published (create_post_kwargs f uid))"
  "\<not> truthy_bool (published (seed_post_kwargs t e c uid cid r fl))"
  by (simp_all add: create_post_kwargs_def seed_post_kwargs_def truthy_bool_def)

lemma app_step_never_timestamped:
  assumes "app_step d d'"
    and "\<forall>p\<in>set (posts d). published p = Some True \<and> date_published p = None"
  shows "\<forall>p\<in>set (posts d'). published p = Some True \<and> date_published p = None"
  using assms
proof (induction rule: app_step.induct)
  case (step_create_post f uid now d d')
  from create_post_stored[OF step_create_post.hyps] step_create_post.prems show ?case by auto
next
  case (step_seed_post t e c uid cid r fl names now d d')
  from seed_post_stored[OF step_seed_post.hyps] step_seed_post.prems show ?case by auto
next
  case (step_add_comment pid body uid d r d')
  from api_add_comment_posts[OF step_add_comment.hyps] step_add_comment.prems
  show ?case by simp
qed

lemma reachable_never_timestamped:
  "reachable d \<Longrightarrow> \<forall>p\<in>set (posts d). published p = Some True \<and> date_published p = None"
proof (induction rule: reachable.induct)
  case reachable_initial
  show ?case by (simp add: initial_db_def)
next
  case (reachable_step d d')
  from app_step_never_timestamped[OF reachable_step.hyps(2) reachable_step.IH] show ?case .
qed

lemma sample_form_valid: "validate_on_submit sample_form initial_db"
  by code_simp

lemma sample_form_tags: "distinct (form_tag_names sample_form)"
  by code_simp

text \<open>
  C3. A post that starts published is to get the construction time as its publication
  timestamp. The post that \<open>create_post\<close> stores for a valid form on the initial tables
  is published and has no publication timestamp.
\<close>

theorem create_post_leaves_date_published_unset:
  "map_sum id (\<lambda>d. map (\<lambda>p. (published p, date_published p)) (posts d))
     (create_post sample_form 1 10 initial_db) = Inr [(Some True, None)]"
proof -
  from create_post_result[OF sample_form_valid sample_form_tags, of 1 10]
  obtain p d' where c: "create_post sample_form 1 10 initial_db = Inr d'"
    and ps: "posts d' = posts initial_db @ [p]"
    and f: "published p = Some True" "date_published p = None" by blast
  from ps have "posts d' = [p]" by (simp add: initial_db_def)
  with c f show ?thesis by simp
qed

section \<open>Comment threads\<close>

lemma api_add_comment_comments:
  assumes "api_add_comment pid body uid d = (r, d')"
  shows "comments d' = comments d \<or>
         (\<exists>c. comments d' = comments d @ [c] \<and> parent_id c = None)"
  using assms
  by (auto simp: api_add_comment_def insert_comment_def Let_def split: if_splits option.splits)

lemma app_step_comments:
  assumes "app_step d d'"
  shows "comments d' = comments d \<or>
         (\<exists>c. comments d' = comments d @ [c] \<and> parent_id c = None)"
  using assms
proof (induction rule: app_step.induct)
  case (step_create_post f uid now d d')
  from create_post_posts[OF this] show ?case by simp
next
  case (step_seed_post t e c uid cid r fl names now d d')
  from seed_post_posts[OF this] show ?case by simp
next
  case (step_add_comment pid body uid d r d')
  then show ?case by (rule api_add_comment_comments)
qed

lemma no_parent_same_post:
  "\<forall>c\<in>set (comments d). parent_id c = None \<Longrightarrow> parent_same_post d"
  by (simp add: parent_same_post_def)

text \<open>
  C4 (as the code has it). The one handler that creates comments never passes a parent:
  in every state that the handlers reach from the initial tables, no comment has a
  parent reference, and so the same-post condition holds of every stored comment.
\<close>

theorem comments_without_parent:
  "reachable d \<Longrightarrow> (\<forall>c\<in>set (comments d). parent_id c = None) \<and> parent_same_post d"
proof (induction rule: reachable.induct)
  case reachable_initial
  have "comments initial_db = []" by (simp add: initial_db_def)
  then show ?case by (simp add: parent_same_post_def)
next
  case (reachable_step d d')
  from app_step_comments[OF reachable_step.hyps(2)] reachable_step.IH
  have "\<forall>c\<in>set (comments d'). parent_id c = None" by auto
  then show ?case using no_parent_same_post by blast
qed

lemma add_comment_ok:
  assumes "get_post d (Some k) = Some p" and "strip body \<noteq> []"
  shows "\<exists>d'. api_add_comment (Some k) (Some body) uid d = (Ok, d') \<and>
           length (comments d') = Suc (length (comments d))"
  using assms by (simp add: api_add_comment_def insert_comment_def Let_def)

theorem comments_without_parent_witness:
  "\<exists>d. reachable d \<and> length (comments d) = 1 \<and>
        list_all (\<lambda>c. parent_id c = None) (comments d) \<and> parent_same_post d"
proof -
  from create_post_result[OF sample_form_valid sample_form_tags, of 1 10]
  obtain p d1 where c: "create_post sample_form 1 10 initial_db = Inr d1"
    and ps: "posts d1 = posts initial_db @ [p]" and cs: "comments d1 = comments initial_db"
    and pid: "post_id p = Some (Suc (length (posts initial_db)))" by blast
  have r1: "reachable d1"
    using reachable_initial c by (blast intro: reachable_step app_step.step_create_post)
  have "posts d1 = [p]" and "post_id p = Some 1" using ps pid by (simp_all add: initial_db_def)
  then have g: "get_post d1 (Some 1) = Some p" by (simp add: get_post_def)
  have s: "strip ''A thoughtful comment'' \<noteq> []" by code_simp
  from add_comment_ok[OF g s, of 2]
  obtain d2 where a: "api_add_comment (Some 1) (Some ''A thoughtful comment'') 2 d1 = (Ok, d2)"
    and l: "length (comments d2) = Suc (length (comments d1))" by blast
  have r2: "reachable d2"
    using r1 a by (blast intro: reachable_step app_step.step_add_comment)
  have l1: "length (comments d2) = 1" using l cs by (simp add: initial_db_def)
  from comments_without_parent [OF r2]
  have "list_all (\<lambda>c. parent_id c = None) (comments d2)" and "parent_same_post d2"
    by (simp_all add: list_all_iff)
  with r2 l1 show ?thesis by blast
qed

text \<open>
  C4 as stated fails for the model itself: the constructor of \<open>Comment\<close> takes any
  \<open>parent_id\<close> and nothing compares the posts, so a reply to a comment of another post
  is stored.
\<close>

theorem reply_across_posts:
  "parent_same_post cross_post_db \<and>
   \<not> parent_same_post
       (insert_comment \<lparr>comment_id = None, comment_content = Some ''A reply'',
                        comment_author_id = Some 2, comment_post_id = Some 2,
                        parent_id = Some 1\<rparr> cross_post_db)"
  by (simp add: parent_same_post_def insert_comment_def cross_post_db_def)

section \<open>Slugs of posts and categories\<close>

text \<open>
  C6 (as the code has it). Two posts with the same title that is not empty, built
  without a slug, the first stored before the second is built: their slugs differ.
  When the table held neither the base slug nor the base slug with \<open>-1\<close> before, the
  first post gets the base slug and the second the base slug with \<open>-1\<close> appended.
\<close>

theorem identical_titles_slugs:
  assumes "title k1 = Some t" and "title k2 = Some t" and "t \<noteq> []"
    and "\<not> truthy_str (slug k1)" and "\<not> truthy_str (slug k2)"
    and "BlogPost_init k1 (posts d) n1 = Inr p1"
    and "slug p1' = slug p1" and "insert_post p1' n1 d = Inr d1"
    and "BlogPost_init k2 (posts d1) n2 = Inr p2"
  shows "slug p1 \<noteq> slug p2 \<and>
         (base_slug t \<notin> slug_set (posts d) \<and> base_slug t @ ''-1'' \<notin> slug_set (posts d) \<longrightarrow>
            slug p1 = Some (base_slug t) \<and> slug p2 = Some (base_slug t @ ''-1''))"
proof -
  define s1 where "s1 = BlogPost_generate_slug (posts d) t"
  define s2 where "s2 = BlogPost_generate_slug (posts d1) t"
  have p1: "slug p1 = Some s1"
    using BlogPost_init_fields(1)[OF assms(6)] init_slug_generated[OF assms(1,3,4)]
    by (simp add: s1_def)
  have p2: "slug p2 = Some s2"
    using BlogPost_init_fields(1)[OF assms(9)] init_slug_generated[OF assms(2,3,5)]
    by (simp add: s2_def)
  have "posts d1 = posts d @ [with_defaults (Suc (length (posts d))) n1 p1']"
    by (rule insert_post_posts(1)[OF assms(8)])
  then have S1: "slug_set (posts d1) = insert s1 (slug_set (posts d))"
    using assms(7) p1 by (simp add: slug_set_append slug_set_single with_defaults_slug)
  have "s2 \<notin> slug_set (posts d1)" unfolding s2_def by (rule BlogPost_generate_slug_fresh)
  with S1 have ne: "s2 \<noteq> s1" by auto
  have second: "slug p1 = Some (base_slug t) \<and> slug p2 = Some (base_slug t @ ''-1'')"
    if a: "base_slug t \<notin> slug_set (posts d)" and b: "base_slug t @ ''-1'' \<notin> slug_set (posts d)"
  proof -
    have e1: "s1 = base_slug t"
      unfolding s1_def BlogPost_generate_slug_def using a by (rule slug_loop_free)
    have u: "base_slug t \<in> slug_set (posts d1)" using S1 e1 by simp
    have c: "base_slug t @ ''-'' @ str_int (1 + int 0) = base_slug t @ ''-1''"
      by (simp add: str_int_1)
    have "base_slug t @ ''-1'' \<notin> slug_set (posts d1)" using S1 e1 b by simp
    then have f: "base_slug t @ ''-'' @ str_int (1 + int 0) \<notin> slug_set (posts d1)"
      unfolding c .
    have v: "\<forall>j. 1 \<le> j \<and> j < 1 + int 0
        \<longrightarrow> base_slug t @ ''-'' @ str_int j \<in> slug_set (posts d1)"
    proof (intro allI impI)
      fix j :: int
      assume "1 \<le> j \<and> j < 1 + int 0"
      then have False by (elim conjE) linarith
      then show "base_slug t @ ''-'' @ str_int j \<in> slug_set (posts d1)" ..
    qed
    have "slug_loop (posts d1) (base_slug t) 1 (base_slug t)
          = base_slug t @ ''-'' @ str_int (1 + int 0)"
      by (rule slug_loop_skip[OF u v f])
    then have "s2 = base_slug t @ ''-1''"
      unfolding s2_def BlogPost_generate_slug_def c .
    with p1 p2 e1 show ?thesis by simp
  qed
  from p1 p2 ne second show ?thesis by simp
qed

lemma base_slug_hello: "base_slug ''Hello World'' = ''hello-world''"
  by code_simp

theorem identical_titles_slugs_witness:
  "create_two (create_post_kwargs sample_form 1) (create_post_kwargs sample_form 2) 10 20 initial_db
     = Inr (Some ''hello-world'', Some ''hello-world-1'')"
proof -
  let ?k1 = "create_post_kwargs sample_form 1" and ?k2 = "create_post_kwargs sample_form 2"
  have t1: "title ?k1 = Some ''Hello World''" and t2: "title ?k2 = Some ''Hello World''"
    by (simp_all add: create_post_kwargs_def sample_form_def)
  have n1: "\<not> truthy_str (slug ?k1)" and n2: "\<not> truthy_str (slug ?k2)"
    by (simp_all add: create_post_kwargs_def truthy_str_def)
  have ne: "''Hello World'' \<noteq> []" by simp
  have empty: "slug_set (posts initial_db) = {}" by (simp add: initial_db_def slug_set_def)
  obtain p1 where p1: "BlogPost_init ?k1 (posts initial_db) 10 = Inr p1"
    using BlogPost_init_total by blast
  have sp: "slug p1 = Some (BlogPost_generate_slug (posts initial_db) ''Hello World'')"
    using BlogPost_init_fields(1)[OF p1] init_slug_generated[OF t1 ne n1] by simp
  have nn: "not_null p1"
    by (rule BlogPost_init_not_null[OF p1]) (simp add: create_post_kwargs_def not_null_def)
  have fr: "BlogPost_generate_slug (posts initial_db) ''Hello World'' \<notin> slug_set (posts initial_db)"
    by (simp add: empty)
  have "insert_post p1 10 initial_db
      = Inr (initial_db\<lparr>posts := posts initial_db
               @ [with_defaults (Suc (length (posts initial_db))) 10 p1]\<rparr>)"
    by (rule insert_post_fresh[OF sp fr nn])
  then obtain d1 where d1: "insert_post p1 10 initial_db = Inr d1" by blast
  obtain p2 where p2: "BlogPost_init ?k2 (posts d1) 20 = Inr p2"
    using BlogPost_init_total by blast
  from identical_titles_slugs [OF t1 t2 ne n1 n2 p1 refl d1 p2]
  have "slug p1 = Some ''hello-world'' \<and> slug p2 = Some ''hello-world-1''"
    by (simp add: base_slug_hello empty)
  then show ?thesis using p1 d1 p2 by (simp add: create_two_def)
qed

text \<open>
  C6 as stated fails against a table that already holds the base slug: the first post
  gets the suffix \<open>-1\<close> and the second \<open>-2\<close>.
\<close>

theorem identical_titles_taken_base:
  "create_two (create_post_kwargs sample_form 1) (create_post_kwargs sample_form 2) 10 20 taken_slug_db
     = Inr (Some ''hello-world-1'', Some ''hello-world-2'')"
  by code_simp

text \<open>
  C2. \<open>Category.generate_slug\<close> has no uniqueness loop: the categories named \<open>C\<close> and
  \<open>C++\<close> get the same slug, whatever the table holds.
\<close>

theorem category_slug_collision:
  "cat_slug (Category_init (category_kwargs ''C'')) = Some ''c'' \<and>
   cat_slug (Category_init (category_kwargs ''C++'')) = Some ''c''"
  by code_simp

section \<open>Titles without alphanumeric characters\<close>

lemma lower_char_alnum: "is_alnum (lower_char d) = is_alnum d"
proof -
  consider (a) "65 \<le> code d \<and> code d \<le> 90" | (b) "192 \<le> code d \<and> code d \<le> 214"
    | (c) "216 \<le> code d \<and> code d \<le> 222"
    | (n) "\<not> ((65 \<le> code d \<and> code d \<le> 90) \<or> (192 \<le> code d \<and> code d \<le> 214)
            \<or> (216 \<le> code d \<and> code d \<le> 222))"
    by blast
  then show ?thesis
  proof cases
    case a
    then have l: "lower_char d = char_of (code d + 32)" by (simp add: lower_char_def Let_def)
    have "code (lower_char d) = code d + 32" unfolding l code_char_of using a by simp
    with a have "97 \<le> code (lower_char d) \<and> code (lower_char d) \<le> 122" by simp
    then have "is_alnum (lower_char d)" by (simp add: is_alnum_def Let_def)
    moreover have "is_alnum d" using a by (simp add: is_alnum_def Let_def)
    ultimately show ?thesis by simp
  next
    case b
    then have l: "lower_char d = char_of (code d + 32)" by (simp add: lower_char_def Let_def)
    have "code (lower_char d) = code d + 32" unfolding l code_char_of using b by simp
    with b have "216 \<le> code (lower_char d) \<and> code (lower_char d) \<le> 246" by simp
    then have "is_alnum (lower_char d)" by (simp add: is_alnum_def Let_def)
    moreover have "is_alnum d" using b by (simp add: is_alnum_def Let_def)
    ultimately show ?thesis by simp
  next
    case c
    then have l: "lower_char d = char_of (code d + 32)" by (simp add: lower_char_def Let_def)
    have "code (lower_char d) = code d + 32" unfolding l code_char_of using c by simp
    with c have "248 \<le> code (lower_char d) \<and> code (lower_char d) \<le> 255" by simp
    then have "is_alnum (lower_char d)" by (simp add: is_alnum_def Let_def)
    moreover have "is_alnum d" using c by (simp add: is_alnum_def Let_def)
    ultimately show ?thesis by simp
  next
    case n
    then have "lower_char d = d" by (auto simp: lower_char_def Let_def)
    then show ?thesis by simp
  qed
qed

lemma base_slug_no_alnum:
  assumes "\<forall>c\<in>set t. \<not> is_alnum c"
  shows "base_slug t = []"
proof (rule ccontr)
  assume ne: "base_slug t \<noteq> []"
  then have "hd (base_slug t) \<in> set (base_slug t)" by simp
  from base_slug_chars[OF this]
  have "hd (base_slug t) = CHR ''-'' \<or>
      (is_alnum (hd (base_slug t)) \<and> (\<exists>d\<in>set t. hd (base_slug t) = lower_char d))" .
  then have "hd (base_slug t) = CHR ''-''"
  proof
    assume "is_alnum (hd (base_slug t)) \<and> (\<exists>d\<in>set t. hd (base_slug t) = lower_char d)"
    then obtain d where d: "d \<in> set t" and "is_alnum (lower_char d)" by auto
    then have "is_alnum d" by (simp only: lower_char_alnum)
    with d assms show ?thesis by blast
  qed
  moreover have "hd (base_slug t) \<noteq> CHR ''-''"
    using ne strip_hyphen_hd unfolding base_slug_def by blast
  ultimately show False by simp
qed

text \<open>
  A title or name without an alphanumeric character has the empty base slug. A category
  built from such a name gets the empty slug; a post gets the empty slug when no stored
  post has it, and otherwise the first of \<open>-1\<close>, \<open>-2\<close>, ... that no stored post has.
\<close>

lemma stripped_title_slug:
  assumes "\<forall>c\<in>set t. \<not> is_alnum c"
  shows "base_slug t = []"
    and "Category_generate_slug t = []"
    and "t \<noteq> [] \<Longrightarrow> cat_slug (Category_init (category_kwargs t)) = Some []"
    and "[] \<notin> slug_set ps \<Longrightarrow> BlogPost_generate_slug ps t = []"
    and "[] \<in> slug_set ps \<Longrightarrow>
         \<forall>j. 1 \<le> j \<and> j < 1 + int n \<longrightarrow> ''-'' @ str_int j \<in> slug_set ps \<Longrightarrow>
         ''-'' @ str_int (1 + int n) \<notin> slug_set ps \<Longrightarrow>
         BlogPost_generate_slug ps t = ''-'' @ str_int (1 + int n)"
proof -
  show b: "base_slug t = []" using assms by (rule base_slug_no_alnum)
  show c: "Category_generate_slug t = []"
    using b by (simp add: Category_generate_slug_def base_slug_def)
  show "cat_slug (Category_init (category_kwargs t)) = Some []" if "t \<noteq> []"
    using that c by (simp add: Category_init_def category_kwargs_def truthy_str_def)
  show "BlogPost_generate_slug ps t = []" if "[] \<notin> slug_set ps"
    using that by (simp add: BlogPost_generate_slug_def b slug_loop_free)
  show "BlogPost_generate_slug ps t = ''-'' @ str_int (1 + int n)"
    if u: "[] \<in> slug_set ps"
      and v: "\<forall>j. 1 \<le> j \<and> j < 1 + int n \<longrightarrow> ''-'' @ str_int j \<in> slug_set ps"
      and f: "''-'' @ str_int (1 + int n) \<notin> slug_set ps"
  proof -
    from v have v': "\<forall>j. 1 \<le> j \<and> j < 1 + int n \<longrightarrow> [] @ ''-'' @ str_int j \<in> slug_set ps"
      by simp
    from f have f': "[] @ ''-'' @ str_int (1 + int n) \<notin> slug_set ps" by simp
    have "slug_loop ps [] 1 [] = [] @ ''-'' @ str_int (1 + int n)"
      by (rule slug_loop_skip[OF u v' f'])
    then show ?thesis by (simp add: BlogPost_generate_slug_def b)
  qed
qed

lemma empty_slug_posts_loop:
  "BlogPost_generate_slug [] ''!!!'' = [] \<and>
   BlogPost_generate_slug (take 1 empty_slug_posts) ''???'' = ''-1'' \<and>
   BlogPost_generate_slug empty_slug_posts ''$$$'' = ''-2''"
  by code_simp

text \<open>
  C10. After an entity with the empty slug, the next one built from a name without
  alphanumeric characters is to get \<open>-1\<close>. Posts do; categories have no uniqueness
  loop: the categories named \<open>!!!\<close> and \<open>???\<close> both get the empty slug, and the second
  does not get \<open>-1\<close>.
\<close>

theorem category_empty_slug_repeats:
  "cat_slug (Category_init (category_kwargs ''!!!'')) = Some [] \<and>
   cat_slug (Category_init (category_kwargs ''???'')) = Some [] \<and>
   cat_slug (Category_init (category_kwargs ''???'')) \<noteq> Some ''-1''"
  by code_simp

section \<open>Free-text search\<close>

lemma like_match_percent: "like_match ''%'' s"
  by (induction s) simp_all

lemma like_match_literal:
  assumes "CHR ''%'' \<notin> set t" and "CHR ''_'' \<notin> set t"
  shows "like_match (t @ ''%'') s = prefix (map ascii_fold t) (map ascii_fold s)"
  using assms
proof (induction t arbitrary: s)
  case Nil
  show ?case using like_match_percent by simp
next
  case (Cons c t)
  from Cons.prems have c: "c \<noteq> CHR ''%''" "c \<noteq> CHR ''_''"
    and t: "CHR ''%'' \<notin> set t" "CHR ''_'' \<notin> set t" by auto
  show ?case
  proof (cases s)
    case Nil
    with c show ?thesis by simp
  next
    case (Cons x r)
    have "like_match ((c # t) @ ''%'') (x # r)
        = (ascii_fold c = ascii_fold x \<and> like_match (t @ ''%'') r)"
      using c by simp
    also have "\<dots> = (ascii_fold c = ascii_fold x \<and> prefix (map ascii_fold t) (map ascii_fold r))"
      by (simp only: Cons.IH[OF t])
    also have "\<dots> = prefix (map ascii_fold (c # t)) (map ascii_fold (x # r))" by simp
    finally show ?thesis unfolding Cons .
  qed
qed

lemma like_match_contains:
  assumes "CHR ''%'' \<notin> set t" and "CHR ''_'' \<notin> set t"
  shows "like_match (''%'' @ t @ ''%'') s = sublist (map ascii_fold t) (map ascii_fold s)"
proof (induction s)
  case Nil
  have "like_match (''%'' @ t @ ''%'') [] = like_match (t @ ''%'') []" by simp
  also have "\<dots> = prefix (map ascii_fold t) (map ascii_fold [])"
    by (rule like_match_literal[OF assms])
  also have "\<dots> = sublist (map ascii_fold t) (map ascii_fold [])" by simp
  finally show ?case .
next
  case (Cons x r)
  have "like_match (''%'' @ t @ ''%'') (x # r)
      = (like_match (t @ ''%'') (x # r) \<or> like_match (''%'' @ t @ ''%'') r)" by simp
  also have "\<dots> = (prefix (map ascii_fold t) (map ascii_fold (x # r))
      \<or> sublist (map ascii_fold t) (map ascii_fold r))"
    by (simp only: like_match_literal[OF assms] Cons.IH)
  also have "\<dots> = sublist (map ascii_fold t) (map ascii_fold (x # r))"
    by (simp add: sublist_Cons_right)
  finally show ?case .
qed

lemma c_str_id: "CHR 0x00 \<notin> set s \<Longrightarrow> c_str s = s"
  by (auto simp: c_str_def takeWhile_eq_all_conv)

lemma contains_literal:
  assumes "CHR ''%'' \<notin> set t" and "CHR ''_'' \<notin> set t" and "CHR 0x00 \<notin> set t"
  shows "(contains col t = Some True) = field_has ascii_fold t (text_of col)"
proof (cases col)
  case None
  then show ?thesis by (simp add: contains_def field_has_def text_of_def)
next
  case (Some s)
  have "CHR 0x00 \<notin> set (like_pattern t)" using assms(3) by (simp add: like_pattern_def)
  then have "c_str (like_pattern t) = ''%'' @ t @ ''%''"
    using c_str_id by (simp add: like_pattern_def)
  then have "contains col t = Some (like_match (''%'' @ t @ ''%'') (c_str s))"
    by (simp add: contains_def Some)
  also have "\<dots> = Some (sublist (map ascii_fold t) (map ascii_fold (c_str s)))"
    by (simp only: like_match_contains[OF assms(1,2)])
  finally show ?thesis by (simp add: field_has_def text_of_def substring_fold_def Some)
qed

lemma sql_or_true: "(sql_or a b = Some True) = (a = Some True \<or> b = Some True)"
  by (simp add: sql_or_def)

lemma search_filter_literal:
  assumes "CHR ''%'' \<notin> set t" and "CHR ''_'' \<notin> set t" and "CHR 0x00 \<notin> set t"
  shows "search_filter t p =
     (field_has ascii_fold t (text_of (title p)) \<or> field_has ascii_fold t (text_of (content p))
      \<or> field_has ascii_fold t (text_of (excerpt p)))"
  by (simp add: search_filter_def sql_or_true contains_literal[OF assms])

text \<open>
  C7 (as the code has it). For a search term without the characters \<open>%\<close>, \<open>_\<close> and NUL,
  the filter selects a post exactly when the term occurs, the case of the ASCII letters
  set aside, in the title or the content or the excerpt, each read up to its first NUL
  character; a field without a value holds no term. With a pattern that is not too
  long the query returns exactly the stored posts of which this holds.
\<close>

theorem search_selects_substring:
  assumes "CHR ''%'' \<notin> set t" and "CHR ''_'' \<notin> set t" and "CHR 0x00 \<notin> set t"
  shows "search_filter t p =
           (field_has ascii_fold t (text_of (title p)) \<or>
            field_has ascii_fold t (text_of (content p)) \<or>
            field_has ascii_fold t (text_of (excerpt p))) \<and>
         (\<not> too_complex (like_pattern t) \<longrightarrow>
            search_posts t ps =
              Inr (filter (\<lambda>p. field_has ascii_fold t (text_of (title p)) \<or>
                               field_has ascii_fold t (text_of (content p)) \<or>
                               field_has ascii_fold t (text_of (excerpt p))) ps))"
proof (intro conjI impI)
  show "search_filter t p =
           (field_has ascii_fold t (text_of (title p)) \<or>
            field_has ascii_fold t (text_of (content p)) \<or>
            field_has ascii_fold t (text_of (excerpt p)))"
    by (rule search_filter_literal[OF assms])
next
  assume "\<not> too_complex (like_pattern t)"
  then have "search_posts t ps = Inr (filter (search_filter t) ps)"
    by (simp add: search_posts_def)
  also have "filter (search_filter t) ps
      = filter (\<lambda>p. field_has ascii_fold t (text_of (title p)) \<or>
                     field_has ascii_fold t (text_of (content p)) \<or>
                     field_has ascii_fold t (text_of (excerpt p))) ps"
    by (rule filter_cong[OF refl]) (rule search_filter_literal[OF assms])
  finally show "search_posts t ps =
              Inr (filter (\<lambda>p. field_has ascii_fold t (text_of (title p)) \<or>
                               field_has ascii_fold t (text_of (content p)) \<or>
                               field_has ascii_fold t (text_of (excerpt p))) ps)" .
qed

theorem search_selects_substring_witness:
  "CHR ''%'' \<notin> set ''BC'' \<and> CHR ''_'' \<notin> set ''BC'' \<and> CHR 0x00 \<notin> set ''BC'' \<and>
   field_has ascii_fold ''BC'' (text_of (title abc_post)) \<and>
   search_filter ''BC'' abc_post \<and>
   search_posts ''BC'' [abc_post] = Inr [abc_post] \<and>
   \<not> search_filter ''xyz123'' abc_post"
proof -
  have a: "CHR ''%'' \<notin> set ''BC''" "CHR ''_'' \<notin> set ''BC''" "CHR 0x00 \<notin> set ''BC''"
    by simp_all
  have b: "CHR ''%'' \<notin> set ''xyz123''" "CHR ''_'' \<notin> set ''xyz123''"
    "CHR 0x00 \<notin> set ''xyz123''" by simp_all
  have f: "field_has ascii_fold ''BC'' (text_of (title abc_post))" by code_simp
  have g: "\<not> field_has ascii_fold ''xyz123'' (text_of (title abc_post))"
    "\<not> field_has ascii_fold ''xyz123'' (text_of (content abc_post))"
    "\<not> field_has ascii_fold ''xyz123'' (text_of (excerpt abc_post))" by code_simp+
  have c: "\<not> too_complex (like_pattern ''BC'')" by code_simp
  note th = search_selects_substring [OF a, of abc_post "[abc_post]"]
  from th f have 1: "search_filter ''BC'' abc_post" by blast
  from th c f have 2: "search_posts ''BC'' [abc_post] = Inr [abc_post]" by simp
  from search_selects_substring [OF b, of abc_post "[]"] g
  have 3: "\<not> search_filter ''xyz123'' abc_post" by blast
  from a f 1 2 3 show ?thesis by blast
qed

text \<open>
  C7 as stated fails: the term is passed to \<open>LIKE\<close> unescaped, so the term \<open>a_c\<close> selects
  a post with the title \<open>abc\<close>, none of whose fields contains \<open>a_c\<close>.
\<close>

theorem search_wildcard_matches:
  "''a_c'' \<noteq> [] \<and> search_filter ''a_c'' abc_post \<and>
   search_posts ''a_c'' [abc_post] = Inr [abc_post] \<and>
   \<not> any_field_has lower_char ''a_c'' abc_post"
  by code_simp

text \<open>
  The other limits of the filter: letters outside ASCII are compared with their case, a
  NUL character ends the pattern, and a pattern that is too long makes the query fail.
\<close>

lemma search_non_ascii_case:
  "\<not> search_filter [CHR 0xC9] (abc_post\<lparr>title := Some [CHR 0xE9]\<rparr>) \<and>
   any_field_has lower_char [CHR 0xC9] (abc_post\<lparr>title := Some [CHR 0xE9]\<rparr>)"
  by code_simp

lemma search_nul_ends_pattern:
  "search_filter [CHR 0x00, CHR ''q''] abc_post \<and>
   \<not> any_field_has lower_char [CHR 0x00, CHR ''q''] abc_post"
  by code_simp

lemma search_posts_too_complex:
  "ps \<noteq> [] \<Longrightarrow> too_complex (like_pattern t) \<Longrightarrow> search_posts t ps = Inl OperationalError"
  by (simp add: search_posts_def)

end
